theory Spec2Isabelle
  imports Complex_Main "HOL-Library.Word"
begin

section \<open>Values, exceptions and the serial device\<close>

text \<open>
  The driver \<^verbatim>\<open>instruments/dl24m.py\<close> talks to an electronic load through a pyvisa
  serial resource. Python bytes are 8-bit words, Python integers are \<^typ>\<open>int\<close>, and
  every Python exception is a value of \<open>exn\<close>. A computation on a state \<open>'s\<close> has the type
  \<open>'s \<Rightarrow> (exn + 'a) \<times> 's\<close>: the state is returned also when the computation raises.

  A finite Python float is represented by the real number it denotes, \<open>PFloat x\<close>; the
  float operations of the driver round their exact result to the nearest float (section
  ``Python floats''). The comparison \<^verbatim>\<open>==\<close> of Python compares the denoted numbers.
\<close>

type_synonym byte = "8 word"

datatype exn =
  VisaIOError | IndexError | ValueError | KeyError | OverflowError | AttributeError
  | NameError

datatype pyval = PNone | PBool bool | PInt int | PFloat real | PTime nat nat nat

text \<open>The settings that \<^verbatim>\<open>__setup_device\<close> assigns to the serial resource.\<close>

datatype attr_val = ANum nat | StopBits_one | Parity_none | ControlFlow_none

text \<open>
  The serial resource is not part of the repository; it is modelled by what the driver can
  observe of it. \<open>rx\<close> holds the bytes waiting in the input buffer, \<open>replies\<close> the
  byte strings that the instrument will send in answer to the next frames written,
  \<open>tx\<close> the frames written so far, \<open>attrs\<close> the settings assigned and \<open>faulty\<close> the names of
  the settings whose assignment raises.
\<close>

record device =
  rx :: "byte list"
  replies :: "byte list list"
  tx :: "byte list list"
  attrs :: "(string \<times> attr_val) list"
  faulty :: "string list"

text \<open>
  \<^verbatim>\<open>device.read_bytes(n)\<close>: pyvisa returns exactly \<open>n\<close> bytes, or raises \<^verbatim>\<open>VisaIOError\<close>
  when the timeout expires first; the bytes received until then are lost.
\<close>

definition read_bytes :: "nat \<Rightarrow> device \<Rightarrow> (exn + byte list) \<times> device" where
  "read_bytes n d =
     (if n \<le> length (rx d) then (Inr (take n (rx d)), d\<lparr>rx := drop n (rx d)\<rparr>)
      else (Inl VisaIOError, d\<lparr>rx := []\<rparr>))"

text \<open>
  \<^verbatim>\<open>device.write_raw(frame)\<close>: the frame goes out, and the instrument's next answer
  arrives in the input buffer.
\<close>

definition write_raw :: "byte list \<Rightarrow> device \<Rightarrow> (exn + unit) \<times> device" where
  "write_raw frame d =
     (Inr (), d\<lparr>rx := rx d @ (case replies d of [] \<Rightarrow> [] | r # _ \<Rightarrow> r),
                replies := tl (replies d),
                tx := tx d @ [frame]\<rparr>)"


text \<open>Assignment to an attribute of the serial resource.\<close>

definition set_attr :: "string \<Rightarrow> attr_val \<Rightarrow> device \<Rightarrow> (exn + unit) \<times> device" where
  "set_attr name v d =
     (if name \<in> set (faulty d) then (Inl VisaIOError, d)
      else (Inr (), d\<lparr>attrs := (name, v) # attrs d\<rparr>))"

text \<open>\<^verbatim>\<open>bytearray([...])\<close> raises \<^verbatim>\<open>ValueError\<close> unless every element is in \<open>range(256)\<close>.\<close>

definition bytearray :: "int list \<Rightarrow> exn + byte list" where
  "bytearray xs =
     (if list_all (\<lambda>x. 0 \<le> x \<and> x < 256) xs then Inr (map word_of_int xs)
      else Inl ValueError)"

text \<open>\<^verbatim>\<open>bytes.index(b)\<close>; \<open>None\<close> stands for the \<^verbatim>\<open>ValueError\<close> of a missing byte.\<close>

fun index_of :: "byte list \<Rightarrow> byte \<Rightarrow> nat option" where
  "index_of [] b = None"
| "index_of (x # xs) b = (if x = b then Some 0 else map_option Suc (index_of xs b))"

section \<open>writeFunction and its resynchronisation loop\<close>

text \<open>
  The inner loop of the scan (lines 239-240, 248-249, 258-259):
  \<^verbatim>\<open>while(bytee[0] != 0xCA): bytee = self.device.read_bytes(1)\<close>
\<close>

function seek_ca :: "byte list \<Rightarrow> device \<Rightarrow> (exn + byte list) \<times> device" where
  "seek_ca bytee d =
     (case bytee of
        [] \<Rightarrow> (Inl IndexError, d)
      | b # _ \<Rightarrow>
          if b \<noteq> 0xCA then
            (case read_bytes 1 d of
               (Inl e, d') \<Rightarrow> (Inl e, d')
             | (Inr bs, d') \<Rightarrow> seek_ca bs d')
          else (Inr bytee, d))"
  by pat_completeness auto
termination
  by (relation "measure (\<lambda>(b, d). length (rx d))")
     (auto simp: read_bytes_def split: if_splits)

declare seek_ca.simps [simp del]

text \<open>
  The outer loop (lines 236-241, 245-250, 255-260), the same text three times:
  \<^verbatim>\<open>
  while (len(bytee) != 2 or bytee[0] != 0xCA or bytee[1] != 0xCB):
      if (len(bytee) == 2):
          bytee = bytes([bytee[1], 0x00])
      while(bytee[0] != 0xCA):
          bytee = self.device.read_bytes(1)
      bytee += self.device.read_bytes(1)
  \<close>
\<close>

lemma seek_ca_Nil: "seek_ca [] d = (Inl IndexError, d)"
  by (simp add: seek_ca.simps)

lemma seek_ca_hit: "seek_ca (0xCA # bs) d = (Inr (0xCA # bs), d)"
  by (simp add: seek_ca.simps)

lemma seek_ca_miss:
  "b \<noteq> 0xCA \<Longrightarrow>
   seek_ca (b # bs) d =
     (case read_bytes 1 d of
        (Inl e, d') \<Rightarrow> (Inl e, d')
      | (Inr bs', d') \<Rightarrow> seek_ca bs' d')"
  by (subst seek_ca.simps) simp

lemma read_bytes_rx_le: "read_bytes n d = (r, d') \<Longrightarrow> length (rx d') \<le> length (rx d)"
  by (auto simp: read_bytes_def split: if_splits)

lemma seek_ca_rx_le:
  "seek_ca bytee d = (r, d') \<Longrightarrow> length (rx d') \<le> length (rx d)"
proof (induction bytee d arbitrary: r d' rule: seek_ca.induct)
  case (1 bytee d)
  show ?case
  proof (cases bytee)
    case Nil
    with "1.prems" show ?thesis by (simp add: seek_ca_Nil)
  next
    case (Cons b bs)
    show ?thesis
    proof (cases "b = 0xCA")
      case True
      with Cons "1.prems" show ?thesis by (simp add: seek_ca_hit)
    next
      case False
      obtain res d1 where rd: "read_bytes 1 d = (res, d1)" by (cases "read_bytes 1 d")
      have le1: "length (rx d1) \<le> length (rx d)" using rd by (rule read_bytes_rx_le)
      show ?thesis
      proof (cases res)
        case (Inl e)
        with rd Cons False "1.prems" le1 show ?thesis by (simp add: seek_ca_miss)
      next
        case (Inr bs')
        with rd Cons False "1.prems" have "seek_ca bs' d1 = (r, d')"
          by (simp add: seek_ca_miss)
        from "1.IH" [OF Cons False rd [symmetric] Inr this] le1
        show ?thesis by simp
      qed
    qed
  qed
qed

function resync :: "byte list \<Rightarrow> device \<Rightarrow> (exn + byte list) \<times> device" where
  "resync bytee d =
     (if length bytee \<noteq> 2 \<or> bytee ! 0 \<noteq> 0xCA \<or> bytee ! 1 \<noteq> 0xCB then
        (case seek_ca (if length bytee = 2 then [bytee ! 1, 0x00] else bytee) d of
           (Inl e, d1) \<Rightarrow> (Inl e, d1)
         | (Inr bytee1, d1) \<Rightarrow>
             (case read_bytes 1 d1 of
                (Inl e, d2) \<Rightarrow> (Inl e, d2)
              | (Inr b, d2) \<Rightarrow> resync (bytee1 @ b) d2))
      else (Inr bytee, d))"
  by pat_completeness auto
termination
  by (relation "measure (\<lambda>(b, d). length (rx d))")
     (auto simp: read_bytes_def split: if_splits dest: seek_ca_rx_le [OF sym])

declare resync.simps [simp del]

text \<open>
  The scan with its epilogue \<^verbatim>\<open>bytes_read = bytee + self.device.read_bytes(6)\<close>
  (lines 235-242, 244-251, 254-261); \<open>bytee0\<close> is the initial value of \<^verbatim>\<open>bytee\<close>.
\<close>

fun scan_frame :: "byte list \<Rightarrow> device \<Rightarrow> (exn + byte list) \<times> device" where
  "scan_frame bytee0 d =
     (case resync bytee0 d of
        (Inl e, d1) \<Rightarrow> (Inl e, d1)
      | (Inr bytee, d1) \<Rightarrow>
          (case read_bytes 6 d1 of
             (Inl e, d2) \<Rightarrow> (Inl e, d2)
           | (Inr rest, d2) \<Rightarrow> (Inr (bytee @ rest), d2)))"

text \<open>What \<^verbatim>\<open>writeFunction\<close> returns: \<^verbatim>\<open>None\<close>, \<^verbatim>\<open>False\<close> or the bytes read.\<close>

datatype wf_ret = RNone | RFalse | RBytes "byte list"

text \<open>
  The realignment of lines 223-261, on the \<open>resp_len\<close> bytes just read. \<open>read_bytes\<close>
  has returned exactly \<open>resp_len = 8\<close> bytes, so no index below is out of range.
\<close>

fun realign :: "nat \<Rightarrow> byte list \<Rightarrow> device \<Rightarrow> (exn + byte list) \<times> device" where
  "realign resp_len bytes_read d =
     (if bytes_read ! 0 \<noteq> 0xCA \<or> bytes_read ! 1 \<noteq> 0xCB then
        (case index_of bytes_read 0xCA of
           None \<Rightarrow> scan_frame [0x00] d
         | Some idx \<Rightarrow>
             if idx + 1 < resp_len then
               if bytes_read ! (idx + 1) = 0xCB then
                 (case read_bytes (resp_len - length (drop idx bytes_read)) d of
                    (Inl e, d1) \<Rightarrow> (Inl e, d1)
                  | (Inr extra, d1) \<Rightarrow> (Inr (drop idx bytes_read @ extra), d1))
               else scan_frame [0x00] d
             else scan_frame [bytes_read ! idx] d)
      else (Inr bytes_read, d))"

text \<open>The body of the \<^verbatim>\<open>try\<close> of \<^verbatim>\<open>writeFunction\<close> (lines 219-262).\<close>

fun exchange :: "nat \<Rightarrow> byte list \<Rightarrow> device \<Rightarrow> (exn + wf_ret) \<times> device" where
  "exchange resp_len frame d =
     (case write_raw frame d of
        (Inl e, d0) \<Rightarrow> (Inl e, d0)
      | (Inr _, d0) \<Rightarrow>
          if resp_len = 0 then (Inr RNone, d0)
          else
            (case read_bytes resp_len d0 of
               (Inl e, d1) \<Rightarrow> (Inl e, d1)
             | (Inr bytes_read, d1) \<Rightarrow>
                 (case realign resp_len bytes_read d1 of
                    (Inl e, d2) \<Rightarrow> (Inl e, d2)
                  | (Inr bs, d2) \<Rightarrow> (Inr (RBytes bs), d2))))"

text \<open>
  \<^verbatim>\<open>writeFunction(command, value)\<close>. The frame is built before the \<^verbatim>\<open>try\<close>, so the
  \<^verbatim>\<open>ValueError\<close> of \<^verbatim>\<open>bytearray\<close> reaches the caller; every exception of the exchange
  is caught and turned into \<^verbatim>\<open>False\<close>.
\<close>

fun writeFunction :: "int \<Rightarrow> int list \<Rightarrow> device \<Rightarrow> (exn + wf_ret) \<times> device" where
  "writeFunction command val d =
     (case bytearray ([0xB1, 0xB2, command] @ val @ [0xB6]) of
        Inl e \<Rightarrow> (Inl e, d)
      | Inr frame \<Rightarrow>
          (case exchange (if command \<ge> 0x10 then 8 else 0) frame d of
             (Inl e, d') \<Rightarrow> (Inr RFalse, d')
           | (Inr r, d') \<Rightarrow> (Inr r, d')))"

section \<open>Register tables\<close>

definition ISON :: int where "ISON = 0x10"
definition VOLTAGE :: int where "VOLTAGE = 0x11"
definition CURRENT :: int where "CURRENT = 0x12"
definition TIME :: int where "TIME = 0x13"
definition CAP_AH :: int where "CAP_AH = 0x14"
definition CAP_WH :: int where "CAP_WH = 0x15"
definition TEMP :: int where "TEMP = 0x16"
definition LIM_CURR :: int where "LIM_CURR = 0x17"
definition LIM_VOLT :: int where "LIM_VOLT = 0x18"
definition TIMER :: int where "TIMER = 0x19"

definition OUTPUT_ON :: int where "OUTPUT_ON = 0x01"
definition SETCURR :: int where "SETCURR = 0x02"
definition SETVCUT :: int where "SETVCUT = 0x03"
definition SETTMR :: int where "SETTMR = 0x04"
definition RESETCNT :: int where "RESETCNT = 0x05"

lemmas register_defs =
  ISON_def VOLTAGE_def CURRENT_def TIME_def CAP_AH_def CAP_WH_def TEMP_def LIM_CURR_def
  LIM_VOLT_def TIMER_def OUTPUT_ON_def SETCURR_def SETVCUT_def SETTMR_def RESETCNT_def

definition MUL :: "int \<rightharpoonup> real" where
  "MUL = map_of
     [(ISON, 1), (VOLTAGE, 1000), (CURRENT, 1000), (CAP_AH, 1000), (CAP_WH, 1000),
      (TEMP, 1), (LIM_CURR, 100), (LIM_VOLT, 100)]"

definition KEY_CMDS :: "string \<rightharpoonup> int" where
  "KEY_CMDS = map_of
     [(''is_on'', ISON), (''voltage'', VOLTAGE), (''current'', CURRENT), (''time'', TIME),
      (''cap_ah'', CAP_AH), (''cap_wh'', CAP_WH), (''temp'', TEMP),
      (''set_current'', LIM_CURR), (''set_voltage'', LIM_VOLT), (''set_timer'', TIMER)]"


definition AUX_VALS :: "string list" where
  "AUX_VALS = [''cap_wh'', ''temp'', ''set_current'', ''set_voltage'', ''set_timer'']"

text \<open>
  Modelled from the spec: the command identifiers \<^verbatim>\<open>Instrument.COMMAND_*\<close> of
  \<^verbatim>\<open>instruments/instrument.py\<close>, which is not among the sources. The executor recognises
  five distinct identifiers (enable, set-voltage, set-current, set-timer, reset); any
  other identifier is \<open>COMMAND_OTHER\<close>. They are strings, so the \<^verbatim>\<open>print("retry " + command)\<close>
  of the executor does not raise.
\<close>

datatype instr_command =
  COMMAND_ENABLE | COMMAND_SET_VOLTAGE | COMMAND_SET_CURRENT | COMMAND_SET_TIMER
  | COMMAND_RESET | COMMAND_OTHER string

definition COMMANDS :: "instr_command \<rightharpoonup> int" where
  "COMMANDS = map_of
     [(COMMAND_ENABLE, OUTPUT_ON), (COMMAND_SET_VOLTAGE, SETVCUT),
      (COMMAND_SET_CURRENT, SETCURR), (COMMAND_SET_TIMER, SETTMR),
      (COMMAND_RESET, RESETCNT)]"

definition VERIFY_CMD :: "instr_command \<rightharpoonup> string" where
  "VERIFY_CMD = map_of
     [(COMMAND_ENABLE, ''is_on''), (COMMAND_SET_VOLTAGE, ''set_voltage''),
      (COMMAND_SET_CURRENT, ''set_current''), (COMMAND_SET_TIMER, ''set_timer''),
      (COMMAND_RESET, ''cap_ah'')]"

section \<open>Python floats\<close>

text \<open>
  A Python float is an IEEE 754 binary64 number: a multiple of a power of two with a
  significand of 53 bits. \<^verbatim>\<open>round(x)\<close> gives the nearest integer, a half going to the even
  neighbour.
\<close>

definition py_round :: "real \<Rightarrow> int" where
  "py_round x =
     (if x - of_int \<lfloor>x\<rfloor> < 1 / 2 then \<lfloor>x\<rfloor>
      else if 1 / 2 < x - of_int \<lfloor>x\<rfloor> then \<lfloor>x\<rfloor> + 1
      else if even \<lfloor>x\<rfloor> then \<lfloor>x\<rfloor> else \<lfloor>x\<rfloor> + 1)"

text \<open>
  The binary exponent of a positive real \<open>a\<close>, that is the \<open>e\<close> with
  \<open>2\<^sup>e \<le> a < 2\<^sup>e\<^sup>+\<^sup>1\<close>, found by halving or doubling \<open>a\<close> into the interval from 1 to 2.
\<close>

function halvings :: "real \<Rightarrow> nat" where
  "halvings x = (if 2 \<le> x then Suc (halvings (x / 2)) else 0)"
  by pat_completeness auto
termination
proof (relation "measure (\<lambda>x. nat \<lfloor>x\<rfloor>)")
  show "wf (measure (\<lambda>x::real. nat \<lfloor>x\<rfloor>))" by simp
next
  fix x :: real
  assume "2 \<le> x"
  then have "x / 2 \<le> x - 1" by simp
  then have "\<lfloor>x / 2\<rfloor> \<le> \<lfloor>x - 1\<rfloor>" by (rule floor_mono)
  moreover have "\<lfloor>x - 1\<rfloor> = \<lfloor>x\<rfloor> - 1" by simp
  moreover from \<open>2 \<le> x\<close> have "2 \<le> \<lfloor>x\<rfloor>" by (simp add: le_floor_iff)
  ultimately show "(x / 2, x) \<in> measure (\<lambda>x. nat \<lfloor>x\<rfloor>)" by simp
qed

function doublings :: "real \<Rightarrow> nat" where
  "doublings x = (if 0 < x \<and> x < 1 then Suc (doublings (2 * x)) else 0)"
  by pat_completeness auto
termination
proof (relation "measure (\<lambda>x. nat \<lfloor>1 / x\<rfloor>)")
  show "wf (measure (\<lambda>x::real. nat \<lfloor>1 / x\<rfloor>))" by simp
next
  fix x :: real
  assume a: "0 < x \<and> x < 1"
  define y where "y = 1 / x"
  from a have y: "1 < y" by (simp add: y_def)
  have eq: "1 / (2 * x) = y / 2" by (simp add: y_def)
  have "\<lfloor>y / 2\<rfloor> < \<lfloor>y\<rfloor>"
  proof (cases "2 \<le> y")
    case True
    then have "y / 2 \<le> y - 1" by simp
    then have "\<lfloor>y / 2\<rfloor> \<le> \<lfloor>y - 1\<rfloor>" by (rule floor_mono)
    then show ?thesis by simp
  next
    case False
    with y have "\<lfloor>y / 2\<rfloor> = 0" by (simp add: floor_eq_iff)
    moreover from y have "1 \<le> \<lfloor>y\<rfloor>" by (simp add: le_floor_iff)
    ultimately show ?thesis by simp
  qed
  then have "nat \<lfloor>1 / (2 * x)\<rfloor> < nat \<lfloor>1 / x\<rfloor>"
    unfolding eq y_def [symmetric] using y by (simp add: le_floor_iff)
  then show "(2 * x, x) \<in> measure (\<lambda>x. nat \<lfloor>1 / x\<rfloor>)" by simp
qed

declare halvings.simps [simp del] doublings.simps [simp del]

definition exponent2 :: "real \<Rightarrow> int" where
  "exponent2 a = (if 1 \<le> a then int (halvings a) else - int (doublings a))"

definition pow2 :: "int \<Rightarrow> real" where
  "pow2 k = (if 0 \<le> k then 2 ^ nat k else 1 / 2 ^ nat (- k))"

text \<open>
  The float nearest to a real, a tie going to the even significand: the real is rounded
  to a multiple of the unit in the last place of its binade, \<open>2\<^sup>e\<^sup>-\<^sup>5\<^sup>2\<close>, and below the
  least normal exponent \<open>-1022\<close> to a multiple of \<open>2\<^sup>-\<^sup>1\<^sup>0\<^sup>7\<^sup>4\<close>. The driver divides a 24-bit
  integer by 1, 100 or 1000 and multiplies a fraction by 100, so no result is large
  enough to overflow.
\<close>

definition double_of :: "real \<Rightarrow> real" where
  "double_of x =
     (if x = 0 then 0
      else
        (let ulp = pow2 (max (exponent2 \<bar>x\<bar>) (- 1022) - 52)
         in sgn x * (real_of_int (py_round (\<bar>x\<bar> / ulp)) * ulp)))"

text \<open>The float operations \<^verbatim>\<open>a / b\<close> (for \<open>b\<close> other than 0) and \<^verbatim>\<open>a * b\<close>.\<close>

definition fdiv :: "real \<Rightarrow> real \<Rightarrow> real" where
  "fdiv a b = double_of (a / b)"

definition fmul :: "real \<Rightarrow> real \<Rightarrow> real" where
  "fmul a b = double_of (a * b)"

section \<open>The driver\<close>

record dl24m =
  device :: device
  aux_index :: nat
  data :: "string \<rightharpoonup> pyval"

text \<open>\<^verbatim>\<open>__init__\<close>; \<^verbatim>\<open>time(0)\<close> is midnight.\<close>

definition init :: "device \<Rightarrow> dl24m" where
  "init dev =
     \<lparr>device = dev, aux_index = 0,
      data = map_of
        [(''is_on'', PFloat 0), (''voltage'', PFloat 0), (''current'', PFloat 0),
         (''time'', PTime 0 0 0), (''cap_ah'', PFloat 0), (''cap_wh'', PFloat 0),
         (''temp'', PInt 0), (''set_current'', PFloat 0), (''set_voltage'', PFloat 0),
         (''set_timer'', PTime 0 0 0)]\<rparr>"

text \<open>\<^verbatim>\<open>int.from_bytes(bs, byteorder='big')\<close>.\<close>

definition from_bytes_big :: "byte list \<Rightarrow> int" where
  "from_bytes_big bs = foldl (\<lambda>acc b. acc * 256 + uint b) 0 bs"

text \<open>\<^verbatim>\<open>datetime.time(hh, mm, ss)\<close> raises \<^verbatim>\<open>ValueError\<close> outside a day's clock.\<close>

definition py_time :: "nat \<Rightarrow> nat \<Rightarrow> nat \<Rightarrow> exn + pyval" where
  "py_time hh mm ss =
     (if hh < 24 \<and> mm < 60 \<and> ss < 60 then Inr (PTime hh mm ss) else Inl ValueError)"

text \<open>
  \<^verbatim>\<open>getVal\<close> from its second statement on (lines 171-195): the decoding of the value
  \<open>ret\<close> that \<^verbatim>\<open>writeFunction\<close> returned. \<^verbatim>\<open>not ret\<close> holds of \<^verbatim>\<open>None\<close>, of \<^verbatim>\<open>False\<close>
  and of the empty bytes. The division is Python's true division, whose result is a
  float also when the scale is the integer 1.
\<close>

fun getVal_decode :: "wf_ret \<Rightarrow> int \<Rightarrow> exn + pyval" where
  "getVal_decode RNone command = Inr (PBool False)"
| "getVal_decode RFalse command = Inr (PBool False)"
| "getVal_decode (RBytes ret) command =
     (if length ret = 0 then Inr (PBool False)
      else if length ret = 1 \<and> ret ! 0 = 0x6F then Inr (PBool False)
      else if length ret < 8 \<or> ret ! 0 \<noteq> 0xCA \<or> ret ! 1 \<noteq> 0xCB
              \<or> ret ! 6 \<noteq> 0xCE \<or> ret ! 7 \<noteq> 0xCF \<or> uint (ret ! 2) \<noteq> command
      then Inr (PBool False)
      else
        (let mult = (case MUL command of Some m \<Rightarrow> m | None \<Rightarrow> 1000) in
         if command = TIME \<or> command = TIMER then
           py_time (unat (ret ! 3)) (unat (ret ! 4)) (unat (ret ! 5))
         else Inr (PFloat (fdiv (real_of_int (from_bytes_big (take 3 (drop 3 ret)))) mult))))"

text \<open>\<^verbatim>\<open>getVal(command)\<close>; of the driver it uses the device only.\<close>

fun getVal :: "int \<Rightarrow> device \<Rightarrow> (exn + pyval) \<times> device" where
  "getVal command d =
     (case writeFunction command [0, 0] d of
        (Inl e, d') \<Rightarrow> (Inl e, d')
      | (Inr ret, d') \<Rightarrow> (getVal_decode ret command, d'))"

text \<open>\<^verbatim>\<open>update_val(key)\<close>: \<^verbatim>\<open>value is not False\<close> tests for the object \<^verbatim>\<open>False\<close>.\<close>

fun update_val :: "string \<Rightarrow> dl24m \<Rightarrow> (exn + unit) \<times> dl24m" where
  "update_val key s =
     (case KEY_CMDS key of
        None \<Rightarrow> (Inl KeyError, s)
      | Some cmd \<Rightarrow>
          (case getVal cmd (device s) of
             (Inl e, d') \<Rightarrow> (Inl e, s\<lparr>device := d'\<rparr>)
           | (Inr v, d') \<Rightarrow>
               if v \<noteq> PBool False
               then (Inr (), s\<lparr>device := d', data := (data s)(key \<mapsto> v)\<rparr>)
               else (Inr (), s\<lparr>device := d'\<rparr>)))"

fun update_vals :: "string list \<Rightarrow> dl24m \<Rightarrow> (exn + unit) \<times> dl24m" where
  "update_vals [] s = (Inr (), s)"
| "update_vals (key # keys) s =
     (case update_val key s of
        (Inl e, s') \<Rightarrow> (Inl e, s')
      | (Inr _, s') \<Rightarrow> update_vals keys s')"




section \<open>Setting values and executing commands\<close>

text \<open>\<^verbatim>\<open>n.to_bytes(2, byteorder='big')\<close> raises \<^verbatim>\<open>OverflowError\<close> outside 16 bits.\<close>

definition to_bytes2 :: "int \<Rightarrow> exn + int list" where
  "to_bytes2 n =
     (if 0 \<le> n \<and> n < 65536 then Inr [n div 256, n mod 256] else Inl OverflowError)"

text \<open>
  \<^verbatim>\<open>math.modf\<close> splits a float into its fractional and integer parts, both with the sign
  of the argument; both parts of a float are floats, so nothing is rounded.
\<close>

definition modf_int :: "real \<Rightarrow> int" where
  "modf_int x = (if 0 \<le> x then \<lfloor>x\<rfloor> else \<lceil>x\<rceil>)"

definition modf_frac :: "real \<Rightarrow> real" where
  "modf_frac x = x - of_int (modf_int x)"

text \<open>
  The payload that \<^verbatim>\<open>setVal\<close> computes from the value (lines 198-207); \<^verbatim>\<open>f * 100\<close> is a
  float product, rounded before \<^verbatim>\<open>round\<close> sees it. A \<^verbatim>\<open>bool\<close> is an \<^verbatim>\<open>int\<close> in Python;
  \<^verbatim>\<open>None\<close> has no \<^verbatim>\<open>to_bytes\<close>.
\<close>

fun setVal_payload :: "int \<Rightarrow> pyval \<Rightarrow> exn + int list" where
  "setVal_payload command (PFloat x) = Inr [modf_int x, py_round (fmul (modf_frac x) 100)]"
| "setVal_payload command (PTime h m s) = to_bytes2 (int s + int m * 60 + int h * 3600)"
| "setVal_payload command (PBool b) =
     (if command = OUTPUT_ON \<and> b then Inr [0x01, 0x00] else to_bytes2 (if b then 1 else 0))"
| "setVal_payload command (PInt n) =
     (if command = OUTPUT_ON \<and> n \<noteq> 0 then Inr [0x01, 0x00] else to_bytes2 n)"
| "setVal_payload command PNone = Inl AttributeError"

fun setVal :: "int \<Rightarrow> pyval \<Rightarrow> device \<Rightarrow> (exn + bool) \<times> device" where
  "setVal command v d =
     (case setVal_payload command v of
        Inl e \<Rightarrow> (Inl e, d)
      | Inr payload \<Rightarrow>
          (case writeFunction command payload d of
             (Inl e, d') \<Rightarrow> (Inl e, d')
           | (Inr ret, d') \<Rightarrow> (Inr (ret = RNone), d')))"

text \<open>
  Python's \<^verbatim>\<open>==\<close> on the values of the driver: numbers (\<^verbatim>\<open>bool\<close>, \<^verbatim>\<open>int\<close>, \<^verbatim>\<open>float\<close>)
  are compared by their exact value, times field by field, and a number never equals a
  time or \<^verbatim>\<open>None\<close>.
\<close>

fun num_of :: "pyval \<Rightarrow> real option" where
  "num_of (PBool b) = Some (if b then 1 else 0)"
| "num_of (PInt n) = Some (of_int n)"
| "num_of (PFloat x) = Some x"
| "num_of (PTime h m s) = None"
| "num_of PNone = None"

definition py_eq :: "pyval \<Rightarrow> pyval \<Rightarrow> bool" where
  "py_eq a b =
     (case (num_of a, num_of b) of
        (Some x, Some y) \<Rightarrow> x = y
      | (None, None) \<Rightarrow> a = b
      | _ \<Rightarrow> False)"

text \<open>
  The retry loop of \<^verbatim>\<open>command\<close> (lines 155-164) with \<open>n\<close> iterations left; the
  \<^verbatim>\<open>sleep\<close> and \<^verbatim>\<open>print\<close> calls have no effect on the state.
\<close>

fun attempts :: "nat \<Rightarrow> instr_command \<Rightarrow> pyval \<Rightarrow> dl24m \<Rightarrow> (exn + unit) \<times> dl24m" where
  "attempts 0 c v s = (Inr (), s)"
| "attempts (Suc n) c v s =
     (case (COMMANDS c, VERIFY_CMD c) of
        (Some code, Some key) \<Rightarrow>
          (case setVal code v (device s) of
             (Inl e, d1) \<Rightarrow> (Inl e, s\<lparr>device := d1\<rparr>)
           | (Inr _, d1) \<Rightarrow>
               (case update_val key (s\<lparr>device := d1\<rparr>) of
                  (Inl e, s2) \<Rightarrow> (Inl e, s2)
                | (Inr _, s2) \<Rightarrow>
                    (case data s2 key of
                       None \<Rightarrow> (Inl KeyError, s2)
                     | Some cur \<Rightarrow>
                         if py_eq cur v then (Inr (), s2) else attempts n c v s2)))
      | _ \<Rightarrow> (Inl KeyError, s))"

text \<open>\<^verbatim>\<open>command(command, value)\<close>: \<^verbatim>\<open>False\<close> for an unknown command, \<^verbatim>\<open>None\<close> otherwise.\<close>

fun command :: "instr_command \<Rightarrow> pyval \<Rightarrow> dl24m \<Rightarrow> (exn + pyval) \<times> dl24m" where
  "command c v s =
     (if COMMANDS c = None then (Inr (PBool False), s)
      else
        (case attempts 3 c v s of
           (Inl e, s1) \<Rightarrow> (Inl e, s1)
         | (Inr _, s1) \<Rightarrow>
             if c = COMMAND_RESET then
               (case update_vals AUX_VALS s1 of
                  (Inl e, s2) \<Rightarrow> (Inl e, s2)
                | (Inr _, s2) \<Rightarrow> (Inr PNone, s2))
             else (Inr PNone, s1)))"

section \<open>Transport setup\<close>

text \<open>The assignments of the \<^verbatim>\<open>try\<close> block of \<^verbatim>\<open>__setup_device\<close>, in order.\<close>

fun assign_all :: "(string \<times> attr_val) list \<Rightarrow> device \<Rightarrow> (exn + unit) \<times> device" where
  "assign_all [] d = (Inr (), d)"
| "assign_all ((name, v) # rest) d =
     (case set_attr name v d of
        (Inl e, d') \<Rightarrow> (Inl e, d')
      | (Inr _, d') \<Rightarrow> assign_all rest d')"

definition serial_settings :: "(string \<times> attr_val) list" where
  "serial_settings =
     [(''timeout'', ANum 500), (''baud_rate'', ANum 9600), (''data_bits'', ANum 8),
      (''stop_bits'', StopBits_one), (''parity'', Parity_none),
      (''flow_control'', ControlFlow_none)]"

text \<open>
  \<^verbatim>\<open>__setup_device\<close>. The handler is \<^verbatim>\<open>except  e:\<close>: when the block raises, Python
  evaluates the expression \<^verbatim>\<open>e\<close> to match the exception against it, and no name
  \<^verbatim>\<open>e\<close> is bound in the method or the module, so the lookup raises \<^verbatim>\<open>NameError\<close>.
\<close>

fun setup_device :: "device \<Rightarrow> (exn + unit) \<times> device" where
  "setup_device d =
     (case assign_all serial_settings d of
        (Inl e, d') \<Rightarrow> (Inl NameError, d')
      | (Inr _, d') \<Rightarrow> (Inr (), d'))"

section \<open>Concrete devices\<close>

text \<open>A device that never answers: every read times out.\<close>

definition quiet :: device where
  "quiet = \<lparr>rx = [], replies = [], tx = [], attrs = [], faulty = []\<rparr>"

text \<open>The six bytes of the frame that queries or sets \<open>cmd\<close> with the payload \<open>p0 p1\<close>.\<close>

definition frame_of :: "int \<Rightarrow> int \<Rightarrow> int \<Rightarrow> byte list" where
  "frame_of cmd p0 p1 = map word_of_int [0xB1, 0xB2, cmd, p0, p1, 0xB6]"

section \<open>Unknown commands\<close>

text \<open>
  C10. For a command identifier that is none of the five recognised ones, and every value,
  \<^verbatim>\<open>command\<close> returns \<^verbatim>\<open>False\<close> at once: the driver state that comes back is the one
  that went in, so nothing was written to the channel, nothing was read, and the
  readings and the round-robin cursor are as before.
\<close>

theorem command_unrecognised:
  "c \<notin> {COMMAND_ENABLE, COMMAND_SET_VOLTAGE, COMMAND_SET_CURRENT, COMMAND_SET_TIMER,
          COMMAND_RESET} \<Longrightarrow> command c v s = (Inr (PBool False), s)"
  by (cases c) (simp_all add: COMMANDS_def)

theorem command_unrecognised_witness:
  "COMMAND_OTHER ''calibrate'' \<notin> {COMMAND_ENABLE, COMMAND_SET_VOLTAGE, COMMAND_SET_CURRENT,
       COMMAND_SET_TIMER, COMMAND_RESET}
   \<and> command (COMMAND_OTHER ''calibrate'') (PInt 1) (init quiet)
       = (Inr (PBool False), init quiet)"
  using command_unrecognised [of "COMMAND_OTHER ''calibrate''" "PInt 1" "init quiet"] by simp

section \<open>Transport setup\<close>

text \<open>
  C9. The claim is that a failure to configure the serial parameters is logged and that
  \<^verbatim>\<open>__setup_device\<close> returns normally. On a device whose baud rate cannot be assigned
  the method raises instead: the handler \<^verbatim>\<open>except  e:\<close> looks up the unbound name
  \<^verbatim>\<open>e\<close>, and the \<^verbatim>\<open>NameError\<close> reaches the caller, after the timeout alone was set.
\<close>

theorem setup_device_fault_propagates:
  "setup_device (quiet\<lparr>faulty := [''baud_rate'']\<rparr>)
     = (Inl NameError, quiet\<lparr>faulty := [''baud_rate''], attrs := [(''timeout'', ANum 500)]\<rparr>)"
  by (simp add: quiet_def serial_settings_def set_attr_def)

section \<open>Decoding scalar registers\<close>

lemma list8:
  assumes "length xs = 8"
  obtains a b c d e f g h where "xs = [a, b, c, d, e, f, g, h]"
proof -
  from assms obtain a b c d e f g h where "xs = [a, b, c, d, e, f, g, h]"
    by (auto simp: length_Suc_conv numeral_eq_Suc)
  then show ?thesis by (rule that)
qed

text \<open>
  C7. For a register other than the two durations (elapsed time and timer) and a
  structurally valid 8-byte frame (header \<open>CA CB\<close>, footer \<open>CE CF\<close>, the command echoed),
  the decoded value is the big-endian unsigned 24-bit integer of the three payload bytes
  divided (Python's float division) by the scale of the register, 1000 when the register
  has no entry in \<open>MUL\<close>.
  The witness is the frame \<open>CA CB 11 00 03 E8 CE CF\<close> of the voltage register, decoded
  to 1.0.
\<close>

theorem getVal_decode_scalar:
  assumes "cmd \<noteq> TIME" and "cmd \<noteq> TIMER"
    and "length ret = 8" and "ret ! 0 = 0xCA" and "ret ! 1 = 0xCB"
    and "ret ! 6 = 0xCE" and "ret ! 7 = 0xCF" and "uint (ret ! 2) = cmd"
  shows "getVal_decode (RBytes ret) cmd =
           Inr (PFloat (fdiv (real_of_int (uint (ret ! 3) * 65536 + uint (ret ! 4) * 256 + uint (ret ! 5)))
                             (case MUL cmd of Some m \<Rightarrow> m | None \<Rightarrow> 1000)))
         \<and> uint (ret ! 3) * 65536 + uint (ret ! 4) * 256 + uint (ret ! 5) < 2 ^ 24"
proof -
  from assms(3) obtain a b c d e f g h where ret: "ret = [a, b, c, d, e, f, g, h]"
    by (rule list8)
  have bound: "uint d < 256" "uint e < 256" "uint f < 256"
    using uint_bounded [of d] uint_bounded [of e] uint_bounded [of f] by simp_all
  have n: "from_bytes_big [d, e, f] = uint d * 65536 + uint e * 256 + uint f"
    by (simp add: from_bytes_big_def)
  show ?thesis using assms bound by (simp add: ret n)
qed

lemma fdiv_1000_1000: "fdiv 1000 1000 = 1"
  by code_simp

theorem getVal_decode_scalar_witness:
  "VOLTAGE \<noteq> TIME \<and> VOLTAGE \<noteq> TIMER
   \<and> getVal_decode (RBytes [0xCA, 0xCB, 0x11, 0x00, 0x03, 0xE8, 0xCE, 0xCF]) VOLTAGE
       = Inr (PFloat 1)
   \<and> MUL VOLTAGE = Some 1000 \<and> MUL 0x20 = None"
  using getVal_decode_scalar [of VOLTAGE "[0xCA, 0xCB, 0x11, 0x00, 0x03, 0xE8, 0xCE, 0xCF]"]
  by (simp add: register_defs MUL_def fdiv_1000_1000)

section \<open>Frames returned by the exchange\<close>

text \<open>
  Whatever the stream, the bytes that \<^verbatim>\<open>writeFunction\<close> returns are 8 in number: the
  scan ends on a two-byte header, and six more bytes are read after it.
\<close>

lemma read_bytes_length: "read_bytes n d = (Inr bs, d') \<Longrightarrow> length bs = n"
  by (auto simp: read_bytes_def split: if_splits)

lemma resync_done:
  "length bytee = 2 \<Longrightarrow> bytee ! 0 = 0xCA \<Longrightarrow> bytee ! 1 = 0xCB \<Longrightarrow> resync bytee d = (Inr bytee, d)"
  by (subst resync.simps) simp

lemma resync_step:
  "length bytee \<noteq> 2 \<or> bytee ! 0 \<noteq> 0xCA \<or> bytee ! 1 \<noteq> 0xCB \<Longrightarrow>
   resync bytee d =
     (case seek_ca (if length bytee = 2 then [bytee ! 1, 0x00] else bytee) d of
        (Inl e, d1) \<Rightarrow> (Inl e, d1)
      | (Inr bytee1, d1) \<Rightarrow>
          (case read_bytes 1 d1 of
             (Inl e, d2) \<Rightarrow> (Inl e, d2)
           | (Inr b, d2) \<Rightarrow> resync (bytee1 @ b) d2))"
  by (subst resync.simps) (simp only: if_True)

lemma resync_header:
  "resync bytee d = (Inr b, d') \<Longrightarrow> length b = 2 \<and> b ! 0 = 0xCA \<and> b ! 1 = 0xCB"
proof (induction bytee d arbitrary: b d' rule: resync.induct)
  case (1 bytee d)
  show ?case
  proof (cases "length bytee \<noteq> 2 \<or> bytee ! 0 \<noteq> 0xCA \<or> bytee ! 1 \<noteq> 0xCB")
    case False
    with "1.prems" show ?thesis by (simp add: resync_done)
  next
    case True
    let ?b1 = "if length bytee = 2 then [bytee ! 1, 0x00] else bytee"
    obtain r1 d1 where sk: "seek_ca ?b1 d = (r1, d1)" by (cases "seek_ca ?b1 d")
    obtain r2 d2 where rd: "read_bytes 1 d1 = (r2, d2)" by (cases "read_bytes 1 d1")
    show ?thesis
    proof (cases r1)
      case (Inl e)
      with sk "1.prems" show ?thesis by (simp add: resync_step [OF True])
    next
      case r1: (Inr bytee1)
      show ?thesis
      proof (cases r2)
        case (Inl e)
        with sk r1 rd "1.prems" show ?thesis by (simp add: resync_step [OF True])
      next
        case r2: (Inr x)
        from sk r1 rd r2 "1.prems" have "resync (bytee1 @ x) d2 = (Inr b, d')"
          by (simp add: resync_step [OF True])
        with "1.IH" [OF True sk [symmetric] r1 rd [symmetric] r2]
        show ?thesis .
      qed
    qed
  qed
qed

lemma scan_frame_length:
  "scan_frame bytee0 d = (Inr bs, d') \<Longrightarrow> length bs = 8"
  by (auto split: prod.splits sum.splits dest!: resync_header read_bytes_length)

lemma index_of_less: "index_of xs b = Some i \<Longrightarrow> i < length xs"
  by (induction xs arbitrary: i) (auto split: if_splits)

lemma realign_length:
  assumes "length bytes_read = 8" and "realign 8 bytes_read d = (Inr bs, d')"
  shows "length bs = 8"
proof (cases "bytes_read ! 0 \<noteq> 0xCA \<or> bytes_read ! 1 \<noteq> 0xCB")
  case False
  with assms show ?thesis by auto
next
  case True
  show ?thesis
  proof (cases "index_of bytes_read 0xCA")
    case None
    with True assms(2) have "scan_frame [0x00] d = (Inr bs, d')" by auto
    then show ?thesis by (rule scan_frame_length)
  next
    case (Some idx)
    then have idx: "idx < 8" using index_of_less assms(1) by fastforce
    show ?thesis
    proof (cases "idx + 1 < 8")
      case False
      with True Some assms(2) have "scan_frame [bytes_read ! idx] d = (Inr bs, d')" by auto
      then show ?thesis by (rule scan_frame_length)
    next
      case lt: True
      show ?thesis
      proof (cases "bytes_read ! (idx + 1) = 0xCB")
        case False
        with True Some lt assms(2) have "scan_frame [0x00] d = (Inr bs, d')" by auto
        then show ?thesis by (rule scan_frame_length)
      next
        case cb: True
        with True Some lt assms(2) obtain extra where
          "read_bytes (8 - length (drop idx bytes_read)) d = (Inr extra, d')"
          "bs = drop idx bytes_read @ extra"
          by (auto split: prod.splits sum.splits)
        then show ?thesis using assms(1) idx by (auto dest!: read_bytes_length)
      qed
    qed
  qed
qed

lemma exchange_length:
  assumes "exchange 8 frame d = (Inr (RBytes bs), d')"
  shows "length bs = 8"
proof -
  obtain d0 where w: "write_raw frame d = (Inr (), d0)" by (simp add: write_raw_def)
  obtain r1 d1 where rd: "read_bytes 8 d0 = (r1, d1)" by (cases "read_bytes 8 d0")
  show ?thesis
  proof (cases r1)
    case (Inl e)
    with w rd assms show ?thesis by simp
  next
    case (Inr bytes_read)
    then have len: "length bytes_read = 8" using rd read_bytes_length by blast
    from w rd Inr assms have "realign 8 bytes_read d1 = (Inr bs, d')"
      by (auto simp del: realign.simps split: prod.splits sum.splits)
    with len show ?thesis by (rule realign_length)
  qed
qed

lemma exchange_zero: "exchange 0 frame d = (Inr RNone, snd (write_raw frame d))"
  by (simp add: write_raw_def)

lemma writeFunction_frame_length:
  assumes "writeFunction cmd val d = (Inr (RBytes bs), d')"
  shows "length bs = 8"
proof (cases "bytearray ([0xB1, 0xB2, cmd] @ val @ [0xB6])")
  case (Inl e)
  with assms show ?thesis by simp
next
  case (Inr frame)
  show ?thesis
  proof (cases "cmd \<ge> 0x10")
    case True
    with Inr assms have "exchange 8 frame d = (Inr (RBytes bs), d')"
      by (auto simp del: exchange.simps split: prod.splits sum.splits)
    then show ?thesis by (rule exchange_length)
  next
    case False
    with Inr assms show ?thesis
      by (auto simp: exchange_zero simp del: exchange.simps split: prod.splits sum.splits)
  qed
qed


section \<open>Acceptance of inbound frames\<close>

text \<open>
  The acceptance condition in the words of the specification: the length is at least 8,
  the first two bytes are \<open>CA CB\<close>, the last two bytes are \<open>CE CF\<close>, and the third byte
  is the command that was queried. \<^verbatim>\<open>None\<close> and \<^verbatim>\<open>False\<close> are no frames.
\<close>

fun frame_ok :: "wf_ret \<Rightarrow> int \<Rightarrow> bool" where
  "frame_ok (RBytes raw) cmd =
     (8 \<le> length raw \<and> take 2 raw = [0xCA, 0xCB]
      \<and> drop (length raw - 2) raw = [0xCE, 0xCF] \<and> uint (raw ! 2) = cmd)"
| "frame_ok RNone cmd = False"
| "frame_ok RFalse cmd = False"

text \<open>A device that answers the first query with a frame of the current register.\<close>

definition echo_mismatch :: device where
  "echo_mismatch = quiet\<lparr>replies := [[0xCA, 0xCB, 0x12, 0x00, 0x00, 0x01, 0xCE, 0xCF]]\<rparr>"

text \<open>A device that answers the first frame with the acknowledgment byte alone.\<close>

definition ack_only :: device where
  "ack_only = quiet\<lparr>replies := [[0x6F]]\<rparr>"

lemma py_time_not_False: "py_time h m s \<noteq> Inr (PBool False)"
  by (simp add: py_time_def)

lemma getVal_decode_frame_ok:
  assumes "length bs = 8"
  shows "(getVal_decode (RBytes bs) cmd = Inr (PBool False)) = (\<not> frame_ok (RBytes bs) cmd)"
proof -
  from assms obtain a b c d e f g h where bs: "bs = [a, b, c, d, e, f, g, h]"
    by (rule list8)
  show ?thesis by (auto simp: bs py_time_not_False)
qed

lemma getVal_False_iff:
  assumes "writeFunction cmd [0, 0] d = (Inr ret, d')"
  shows "(getVal cmd d = (Inr (PBool False), d')) = (\<not> frame_ok ret cmd)"
proof -
  have "(getVal_decode ret cmd = Inr (PBool False)) = (\<not> frame_ok ret cmd)"
  proof (cases ret)
    case (RBytes bs)
    with assms have "writeFunction cmd [0, 0] d = (Inr (RBytes bs), d')" by simp
    then have "length bs = 8" by (rule writeFunction_frame_length)
    then show ?thesis unfolding RBytes by (rule getVal_decode_frame_ok)
  qed simp_all
  then show ?thesis using assms by (simp del: writeFunction.simps)
qed

lemma echo_mismatch_exchange:
  "writeFunction VOLTAGE [0, 0] echo_mismatch
     = (Inr (RBytes [0xCA, 0xCB, 0x12, 0x00, 0x00, 0x01, 0xCE, 0xCF]),
        quiet\<lparr>tx := [frame_of VOLTAGE 0 0]\<rparr>)"
  by code_simp

lemma ack_only_exchange:
  "writeFunction CURRENT [0, 0] (device (init ack_only))
     = (Inr RFalse, quiet\<lparr>tx := [frame_of CURRENT 0 0]\<rparr>)"
  by code_simp

text \<open>
  C3. Let \<open>ret\<close> be what the exchange for the queried command returned. \<^verbatim>\<open>getVal\<close>
  returns the failure value \<^verbatim>\<open>False\<close>, and does not raise, exactly when \<open>ret\<close> violates the
  acceptance condition; so a frame is accepted only if it has at least 8 bytes, starts
  with \<open>CA CB\<close>, ends with \<open>CE CF\<close> and echoes the command. The decoding step also maps an
  empty read and a lone acknowledgment byte \<open>6F\<close> to \<^verbatim>\<open>False\<close>.
\<close>

theorem getVal_rejects_invalid_frames:
  assumes "writeFunction cmd [0, 0] d = (Inr ret, d')"
  shows "(getVal cmd d = (Inr (PBool False), d')) = (\<not> frame_ok ret cmd)
         \<and> getVal_decode (RBytes []) cmd = Inr (PBool False)
         \<and> getVal_decode (RBytes [0x6F]) cmd = Inr (PBool False)"
  using getVal_False_iff [OF assms] by simp

theorem getVal_rejects_invalid_frames_witness:
  "writeFunction VOLTAGE [0, 0] echo_mismatch
     = (Inr (RBytes [0xCA, 0xCB, 0x12, 0x00, 0x00, 0x01, 0xCE, 0xCF]),
        quiet\<lparr>tx := [frame_of VOLTAGE 0 0]\<rparr>)
   \<and> getVal VOLTAGE echo_mismatch = (Inr (PBool False), quiet\<lparr>tx := [frame_of VOLTAGE 0 0]\<rparr>)
   \<and> \<not> frame_ok (RBytes [0xCA, 0xCB, 0x12, 0x00, 0x00, 0x01, 0xCE, 0xCF]) VOLTAGE"
  using getVal_rejects_invalid_frames [OF echo_mismatch_exchange] echo_mismatch_exchange
  by (simp add: VOLTAGE_def)

section \<open>Failed register reads\<close>

text \<open>
  C5. When the exchange for a register fails (\<^verbatim>\<open>writeFunction\<close> returns \<^verbatim>\<open>False\<close> after a
  transport exception, or bytes that are not an acceptable frame for the register),
  \<^verbatim>\<open>update_val\<close> returns normally and the driver keeps every reading and the cursor: only
  the device has moved on. In the model an empty read and a lone acknowledgment byte
  are reads that time out, so they are exchanges that return \<^verbatim>\<open>False\<close>; the witness is
  such a device.
\<close>

theorem update_val_failed_exchange:
  assumes "KEY_CMDS key = Some cmd"
    and "writeFunction cmd [0, 0] (device s) = (Inr ret, d')"
    and "\<not> frame_ok ret cmd"
  shows "update_val key s = (Inr (), s\<lparr>device := d'\<rparr>)"
proof -
  from assms(3) have "getVal cmd (device s) = (Inr (PBool False), d')"
    using getVal_False_iff [OF assms(2)] by simp
  with assms(1) show ?thesis by (simp del: getVal.simps)
qed

theorem update_val_failed_exchange_witness:
  "KEY_CMDS ''current'' = Some CURRENT
   \<and> \<not> frame_ok RFalse CURRENT
   \<and> update_val ''current'' (init ack_only)
       = (Inr (), (init ack_only)\<lparr>device := quiet\<lparr>tx := [frame_of CURRENT 0 0]\<rparr>\<rparr>)"
  using update_val_failed_exchange
          [of "''current''" CURRENT "init ack_only" RFalse, OF _ ack_only_exchange]
  by (simp add: KEY_CMDS_def)

section \<open>Resynchronisation on back-to-back sync bytes\<close>

text \<open>
  Once \<^verbatim>\<open>bytee\<close> starts with \<open>CA\<close> and holds three bytes or more, the loop can no longer
  end on a header: its condition asks for a length of exactly 2, the inner loop is
  skipped, and each round appends one more byte. The scan then reads the stream to its
  end and the read that times out raises.
\<close>

lemma resync_stuck:
  "3 \<le> length bytee \<Longrightarrow> bytee ! 0 = 0xCA \<Longrightarrow> resync bytee d = (Inl VisaIOError, d\<lparr>rx := []\<rparr>)"
proof (induction bytee d rule: resync.induct)
  case (1 bytee d)
  from "1.prems" have cond: "length bytee \<noteq> 2 \<or> bytee ! 0 \<noteq> 0xCA \<or> bytee ! 1 \<noteq> 0xCB"
    by simp
  from "1.prems" obtain bs where bytee: "bytee = 0xCA # bs" by (cases bytee) auto
  have sk: "seek_ca (if length bytee = 2 then [bytee ! 1, 0x00] else bytee) d = (Inr bytee, d)"
    using "1.prems" by (simp add: bytee seek_ca_hit)
  show ?case
  proof (cases "1 \<le> length (rx d)")
    case False
    then have "read_bytes 1 d = (Inl VisaIOError, d\<lparr>rx := []\<rparr>)"
      by (simp add: read_bytes_def)
    with sk show ?thesis by (simp add: resync_step [OF cond])
  next
    case True
    then have rd: "read_bytes 1 d = (Inr (take 1 (rx d)), d\<lparr>rx := drop 1 (rx d)\<rparr>)"
      by (simp add: read_bytes_def)
    have "resync (bytee @ take 1 (rx d)) (d\<lparr>rx := drop 1 (rx d)\<rparr>)
            = (Inl VisaIOError, d\<lparr>rx := drop 1 (rx d)\<rparr>\<lparr>rx := []\<rparr>)"
      using "1.prems" by (intro "1.IH" [OF cond sk [symmetric] refl rd [symmetric] refl])
                          (simp_all add: bytee)
    with sk rd show ?thesis by (simp add: resync_step [OF cond])
  qed
qed

text \<open>
  The stream \<open>CA CA CB 11 00 03 E8 CE CF\<close>: a sync byte right before a complete frame of
  the voltage register.
\<close>

definition double_sync :: "byte list" where
  "double_sync = [0xCA, 0xCA, 0xCB, 0x11, 0x00, 0x03, 0xE8, 0xCE, 0xCF]"

text \<open>
  The stream \<open>CA 00 CA CB 11 00 03 E8 CE CF\<close>: a spurious sync byte, one more byte, and a
  complete frame that starts within the first eight bytes.
\<close>

definition sync_in_first_read :: "byte list" where
  "sync_in_first_read = [0xCA, 0x00, 0xCA, 0xCB, 0x11, 0x00, 0x03, 0xE8, 0xCE, 0xCF]"

text \<open>
  C2. The claim is that the scan reaches the header of every stream that contains
  \<open>CA CB\<close>, also when the candidate \<open>CA\<close> is followed at once by another \<open>CA\<close>. The loop
  does read at least one byte in every round, but in that case it never ends on the
  header: with \<^verbatim>\<open>bytee\<close> equal to \<open>CA CA\<close> the statement
  \<^verbatim>\<open>bytee = bytes([bytee[1], 0x00])\<close> leaves two bytes, the next read makes three, and
  whatever the rest of the stream holds, the scan consumes all of it and ends with the
  exception of the read that times out. So does the scan of the stream
  \<open>CA CA CB 11 00 03 E8 CE CF\<close>.
\<close>

theorem resync_lost_after_double_sync:
  "resync [0xCA, 0xCA] d = (Inl VisaIOError, d\<lparr>rx := []\<rparr>)
   \<and> scan_frame [0x00] (quiet\<lparr>rx := double_sync\<rparr>) = (Inl VisaIOError, quiet)"
proof -
  have cond: "length [0xCA, 0xCA :: byte] \<noteq> 2 \<or> [0xCA, 0xCA :: byte] ! 0 \<noteq> 0xCA
                \<or> [0xCA, 0xCA :: byte] ! 1 \<noteq> 0xCB"
    by simp
  have a: "resync [0xCA, 0xCA] d = (Inl VisaIOError, d\<lparr>rx := []\<rparr>)"
  proof (cases "1 \<le> length (rx d)")
    case False
    then have "read_bytes 1 d = (Inl VisaIOError, d\<lparr>rx := []\<rparr>)"
      by (simp add: read_bytes_def)
    then show ?thesis by (simp add: resync_step [OF cond] seek_ca_hit)
  next
    case True
    then have rd: "read_bytes 1 d = (Inr (take 1 (rx d)), d\<lparr>rx := drop 1 (rx d)\<rparr>)"
      by (simp add: read_bytes_def)
    have "resync ([0xCA, 0x00] @ take 1 (rx d)) (d\<lparr>rx := drop 1 (rx d)\<rparr>)
            = (Inl VisaIOError, d\<lparr>rx := drop 1 (rx d)\<rparr>\<lparr>rx := []\<rparr>)"
      using True by (intro resync_stuck) (simp_all add: Suc_le_eq)
    with rd show ?thesis by (simp add: resync_step [OF cond] seek_ca_hit)
  qed
  have b: "scan_frame [0x00] (quiet\<lparr>rx := double_sync\<rparr>) = (Inl VisaIOError, quiet)"
    by code_simp
  from a b show ?thesis by simp
qed

text \<open>
  C1. The claim is that a misaligned read is followed by a scan that discards a spurious
  \<open>CA\<close> and returns the frame at the true header. Two answers to a voltage query on which
  \<^verbatim>\<open>writeFunction\<close> returns \<^verbatim>\<open>False\<close> with the frame consumed: eight other bytes and then
  \<open>CA CA CB ...\<close> (the spurious \<open>CA\<close> right before the header), and \<open>CA 00 CA CB ...\<close> (the
  header within the first eight bytes, which are dropped after the first \<open>CA\<close>). A
  spurious \<open>CA\<close> followed by another byte outside the first read is handled: the third
  stream yields the frame.
\<close>

theorem writeFunction_misses_true_header:
  "writeFunction VOLTAGE [0, 0]
      (quiet\<lparr>replies := [[0x00, 0x00, 0x00, 0x00, 0x00, 0x00, 0x00, 0x00] @ double_sync]\<rparr>)
     = (Inr RFalse, quiet\<lparr>tx := [frame_of VOLTAGE 0 0]\<rparr>)
   \<and> writeFunction VOLTAGE [0, 0] (quiet\<lparr>replies := [sync_in_first_read]\<rparr>)
     = (Inr RFalse, quiet\<lparr>tx := [frame_of VOLTAGE 0 0]\<rparr>)
   \<and> writeFunction VOLTAGE [0, 0]
      (quiet\<lparr>replies := [[0x00, 0x00, 0x00, 0x00, 0x00, 0x00, 0x00, 0x00, 0xCA, 0x01] @ tl double_sync]\<rparr>)
     = (Inr (RBytes (tl double_sync)), quiet\<lparr>tx := [frame_of VOLTAGE 0 0]\<rparr>)"
  by code_simp


section \<open>Frames written to the device\<close>

text \<open>
  The log \<open>tx\<close> records what the driver did on the wire: reads leave it alone, and every
  exchange appends the one frame it writes, whatever the answer.
\<close>

lemma read_bytes_tx: "tx (snd (read_bytes n d)) = tx d"
  by (simp add: read_bytes_def)

lemma seek_ca_tx: "tx (snd (seek_ca bytee d)) = tx d"
proof (induction bytee d rule: seek_ca.induct)
  case (1 bytee d)
  show ?case
  proof (cases bytee)
    case Nil
    then show ?thesis by (simp add: seek_ca_Nil)
  next
    case (Cons b bs)
    show ?thesis
    proof (cases "b = 0xCA")
      case True
      with Cons show ?thesis by (simp add: seek_ca_hit)
    next
      case False
      obtain res d1 where rd: "read_bytes 1 d = (res, d1)" by (cases "read_bytes 1 d")
      have t1: "tx d1 = tx d" using read_bytes_tx [of 1 d] rd by simp
      show ?thesis
      proof (cases res)
        case (Inl e)
        with rd Cons False t1 show ?thesis by (simp add: seek_ca_miss)
      next
        case (Inr bs')
        from "1.IH" [OF Cons False rd [symmetric] Inr] t1 rd Cons False Inr
        show ?thesis by (simp add: seek_ca_miss)
      qed
    qed
  qed
qed

lemma resync_tx: "tx (snd (resync bytee d)) = tx d"
proof (induction bytee d rule: resync.induct)
  case (1 bytee d)
  show ?case
  proof (cases "length bytee \<noteq> 2 \<or> bytee ! 0 \<noteq> 0xCA \<or> bytee ! 1 \<noteq> 0xCB")
    case False
    then show ?thesis by (simp add: resync_done)
  next
    case True
    let ?b1 = "if length bytee = 2 then [bytee ! 1, 0x00] else bytee"
    obtain r1 d1 where sk: "seek_ca ?b1 d = (r1, d1)" by (cases "seek_ca ?b1 d")
    obtain r2 d2 where rd: "read_bytes 1 d1 = (r2, d2)" by (cases "read_bytes 1 d1")
    have t1: "tx d1 = tx d" using seek_ca_tx [of ?b1 d] sk by simp
    have t2: "tx d2 = tx d1" using read_bytes_tx [of 1 d1] rd by simp
    show ?thesis
    proof (cases r1)
      case (Inl e)
      with sk t1 show ?thesis by (simp add: resync_step [OF True])
    next
      case r1: (Inr bytee1)
      show ?thesis
      proof (cases r2)
        case (Inl e)
        with sk r1 rd t1 t2 show ?thesis by (simp add: resync_step [OF True])
      next
        case r2: (Inr x)
        from "1.IH" [OF True sk [symmetric] r1 rd [symmetric] r2] sk r1 rd r2 t1 t2
        show ?thesis by (simp add: resync_step [OF True])
      qed
    qed
  qed
qed

lemma scan_frame_tx: "tx (snd (scan_frame bytee0 d)) = tx d"
proof -
  obtain r1 d1 where rs: "resync bytee0 d = (r1, d1)" by (cases "resync bytee0 d")
  have t1: "tx d1 = tx d" using resync_tx [of bytee0 d] rs by simp
  obtain r2 d2 where rd: "read_bytes 6 d1 = (r2, d2)" by (cases "read_bytes 6 d1")
  have t2: "tx d2 = tx d1" using read_bytes_tx [of 6 d1] rd by simp
  show ?thesis using rs rd t1 t2 by (simp split: sum.splits)
qed

lemma snd_map_result:
  "snd (case p of (Inl e, d1) \<Rightarrow> (Inl e, d1) | (Inr x, d1) \<Rightarrow> (Inr (f x), d1)) = snd p"
  by (auto split: prod.splits sum.splits)

lemma realign_tx: "tx (snd (realign n bytes_read d)) = tx d"
  by (auto simp: scan_frame_tx snd_map_result read_bytes_tx simp del: scan_frame.simps
           split: option.splits)

lemma exchange_tx: "tx (snd (exchange n frame d)) = tx d @ [frame]"
proof -
  obtain d0 where w: "write_raw frame d = (Inr (), d0)" and t0: "tx d0 = tx d @ [frame]"
    by (simp add: write_raw_def)
  obtain r1 d1 where rd: "read_bytes n d0 = (r1, d1)" by (cases "read_bytes n d0")
  have t1: "tx d1 = tx d0" using read_bytes_tx [of n d0] rd by simp
  show ?thesis
  proof (cases "n = 0")
    case True
    with w t0 show ?thesis by simp
  next
    case False
    show ?thesis
    proof (cases r1)
      case (Inl e)
      with w rd t0 t1 False show ?thesis by simp
    next
      case (Inr bytes_read)
      obtain r2 d2 where ra: "realign n bytes_read d1 = (r2, d2)"
        by (cases "realign n bytes_read d1")
      have "tx d2 = tx d1" using realign_tx [of n bytes_read d1] ra by simp
      with w rd t0 t1 False Inr ra show ?thesis
        by (simp del: realign.simps split: sum.splits)
    qed
  qed
qed

lemma bytearray_frame:
  "0 \<le> cmd \<Longrightarrow> cmd < 256 \<Longrightarrow> bytearray [0xB1, 0xB2, cmd, 0, 0, 0xB6] = Inr (frame_of cmd 0 0)"
  by (simp add: bytearray_def frame_of_def)

lemma writeFunction_tx:
  "tx (snd (writeFunction cmd val d)) = tx d
   \<or> (\<exists>frame. tx (snd (writeFunction cmd val d)) = tx d @ [frame] \<and> uint (frame ! 2) = cmd)"
proof (cases "bytearray ([0xB1, 0xB2, cmd] @ val @ [0xB6])")
  case (Inl e)
  then show ?thesis by simp
next
  case (Inr frame)
  let ?n = "if 16 \<le> cmd then 8 else (0::nat)"
  have "frame = map word_of_int ([0xB1, 0xB2, cmd] @ val @ [0xB6])" and "0 \<le> cmd" "cmd < 256"
    using Inr by (auto simp: bytearray_def split: if_splits)
  then have c: "uint (frame ! 2) = cmd"
    by (simp add: uint_word_of_int take_bit_int_eq_self)
  obtain r d' where ex: "exchange ?n frame d = (r, d')" by (cases "exchange ?n frame d")
  have "tx d' = tx d @ [frame]" using exchange_tx [of ?n frame d] ex by simp
  with Inr ex c show ?thesis by (auto simp del: exchange.simps split: sum.splits)
qed

lemma getVal_tx:
  assumes "0 \<le> cmd" and "cmd < 256"
  shows "tx (snd (getVal cmd d)) = tx d @ [frame_of cmd 0 0]"
proof -
  let ?n = "if 16 \<le> cmd then 8 else (0::nat)"
  obtain r d' where ex: "exchange ?n (frame_of cmd 0 0) d = (r, d')"
    by (cases "exchange ?n (frame_of cmd 0 0) d")
  have "tx d' = tx d @ [frame_of cmd 0 0]" using exchange_tx [of ?n "frame_of cmd 0 0" d] ex by simp
  with ex show ?thesis using bytearray_frame [OF assms]
    by (auto simp del: exchange.simps split: sum.splits)
qed

lemma KEY_CMDS_range: "KEY_CMDS key = Some cmd \<Longrightarrow> 0x10 \<le> cmd \<and> cmd \<le> 0x19"
  by (auto simp: KEY_CMDS_def register_defs split: if_splits)

lemma update_val_tx:
  assumes "KEY_CMDS key = Some cmd"
  shows "tx (device (snd (update_val key s))) = tx (device s) @ [frame_of cmd 0 0]"
proof -
  from KEY_CMDS_range [OF assms] have "0 \<le> cmd" "cmd < 256" by simp_all
  from getVal_tx [OF this, of "device s"] assms show ?thesis
    by (auto simp del: getVal.simps split: prod.splits sum.splits)
qed


section \<open>Round-robin polling of the auxiliary registers\<close>


text \<open>The codes of the auxiliary registers, in the order of \<^verbatim>\<open>AUX_VALS\<close>.\<close>

definition aux_codes :: "int list" where
  "aux_codes = List.map_filter KEY_CMDS AUX_VALS"

text \<open>The auxiliary registers queried by the frames of a log, in the order of the log.\<close>

definition aux_queries :: "byte list list \<Rightarrow> int list" where
  "aux_queries frames = filter (\<lambda>c. c \<in> set aux_codes) (map (\<lambda>f. uint (f ! 2)) frames)"

lemma aux_codes_eq: "aux_codes = [0x15, 0x16, 0x17, 0x18, 0x19]"
  by (simp add: aux_codes_def AUX_VALS_def KEY_CMDS_def List.map_filter_simps register_defs)

lemma frame_of_cmd: "0 \<le> c \<Longrightarrow> c < 256 \<Longrightarrow> uint (frame_of c p0 p1 ! 2) = c"
  by (simp add: frame_of_def uint_word_of_int take_bit_int_eq_self)


























section \<open>The refresh after a full reset\<close>

text \<open>A query of a register other than the two durations never raises, so the refresh
  of the auxiliary registers, whose last key is the only duration among them, issues all
  five queries.\<close>

lemma getVal_decode_no_raise:
  "cmd \<noteq> TIME \<Longrightarrow> cmd \<noteq> TIMER \<Longrightarrow> \<exists>v. getVal_decode ret cmd = Inr v"
  by (cases ret) simp_all

lemma getVal_no_raise:
  assumes "0 \<le> cmd" and "cmd < 256" and "cmd \<noteq> TIME" and "cmd \<noteq> TIMER"
  shows "\<exists>v. fst (getVal cmd d) = Inr v"
proof -
  let ?n = "if 16 \<le> cmd then 8 else (0::nat)"
  obtain r d' where ex: "exchange ?n (frame_of cmd 0 0) d = (r, d')"
    by (cases "exchange ?n (frame_of cmd 0 0) d")
  obtain ret where wf: "writeFunction cmd [0, 0] d = (Inr ret, d')"
    using ex bytearray_frame [OF assms(1,2)]
    by (cases r) (simp_all del: exchange.simps)
  from getVal_decode_no_raise [OF assms(3,4), of ret] wf show ?thesis
    by (auto simp del: writeFunction.simps)
qed

lemma update_val_no_raise:
  assumes "KEY_CMDS key = Some cmd" and "cmd \<noteq> TIME" and "cmd \<noteq> TIMER"
  shows "fst (update_val key s) = Inr ()"
proof -
  from KEY_CMDS_range [OF assms(1)] have "0 \<le> cmd" "cmd < 256" by simp_all
  from getVal_no_raise [OF this assms(2,3), of "device s"] obtain v d'
    where "getVal cmd (device s) = (Inr v, d')"
    by (cases "getVal cmd (device s)") auto
  with assms(1) show ?thesis by (simp del: getVal.simps)
qed

lemma update_vals_Cons_ok:
  "fst (update_val key s) = Inr () \<Longrightarrow>
   update_vals (key # keys) s = update_vals keys (snd (update_val key s))"
  by (cases "update_val key s") (simp del: update_val.simps)

lemma update_vals_last:
  "snd (update_vals [key] s) = snd (update_val key s)"
  by (cases "update_val key s") (auto simp del: update_val.simps split: sum.splits)

lemma update_vals_AUX_tx:
  "tx (device (snd (update_vals AUX_VALS s)))
     = tx (device s) @ map (\<lambda>c. frame_of c 0 0) aux_codes"
proof -
  have k: "KEY_CMDS ''cap_wh'' = Some 0x15" "KEY_CMDS ''temp'' = Some 0x16"
    "KEY_CMDS ''set_current'' = Some 0x17" "KEY_CMDS ''set_voltage'' = Some 0x18"
    "KEY_CMDS ''set_timer'' = Some 0x19"
    by (simp_all add: KEY_CMDS_def register_defs)
  have nr: "\<And>s. fst (update_val ''cap_wh'' s) = Inr ()"
    "\<And>s. fst (update_val ''temp'' s) = Inr ()"
    "\<And>s. fst (update_val ''set_current'' s) = Inr ()"
    "\<And>s. fst (update_val ''set_voltage'' s) = Inr ()"
    by (rule update_val_no_raise [OF k(1)] update_val_no_raise [OF k(2)]
             update_val_no_raise [OF k(3)] update_val_no_raise [OF k(4)];
        simp add: register_defs)+
  show ?thesis
    unfolding AUX_VALS_def
    by (simp only: update_vals_Cons_ok nr update_vals_last update_val_tx [OF k(1)]
          update_val_tx [OF k(2)] update_val_tx [OF k(3)] update_val_tx [OF k(4)]
          update_val_tx [OF k(5)] aux_codes_eq)
       simp
qed

lemma quiet_reset_attempts:
  "attempts 3 COMMAND_RESET (PInt 1) (init quiet)
     = (Inr (), snd (attempts 3 COMMAND_RESET (PInt 1) (init quiet)))"
proof -
  have "fst (attempts 3 COMMAND_RESET (PInt 1) (init quiet)) = Inr ()" by code_simp
  then show ?thesis by (simp add: prod_eq_iff)
qed

lemma reset_code: "COMMANDS COMMAND_RESET = Some RESETCNT"
  by (simp add: COMMANDS_def)

text \<open>Counterexample to C8 as stated: on a device that never answers, the reset command
  tries three times, the verification register \<^verbatim>\<open>cap_ah\<close> keeps its initial reading 0.0,
  which is not equal to the requested value 1, so verification never succeeds; the
  executor still returns \<^verbatim>\<open>None\<close> and has queried all five auxiliary registers.\<close>

theorem reset_refreshes_aux_without_verification:
  "fst (command COMMAND_RESET (PInt 1) (init quiet)) = Inr PNone
   \<and> data (snd (attempts 3 COMMAND_RESET (PInt 1) (init quiet))) ''cap_ah'' = Some (PFloat 0)
   \<and> \<not> py_eq (PFloat 0) (PInt 1)
   \<and> length (tx (device (snd (attempts 3 COMMAND_RESET (PInt 1) (init quiet))))) = 6
   \<and> aux_queries (tx (device (snd (command COMMAND_RESET (PInt 1) (init quiet)))))
       = [CAP_WH, TEMP, LIM_CURR, LIM_VOLT, TIMER]"
  by code_simp

text \<open>C8 (amended): when the retry loop of the executor ends without an exception, in
  state \<^verbatim>\<open>s1\<close>, the full reset command refreshes every auxiliary register from \<^verbatim>\<open>s1\<close>,
  writing one query per auxiliary register in the order of \<^verbatim>\<open>AUX_VALS\<close>, whether or not
  the verification matched; every other recognised command returns \<^verbatim>\<open>None\<close> in \<^verbatim>\<open>s1\<close>
  itself, with no refresh.\<close>

theorem command_reset_refreshes_aux:
  assumes "COMMANDS c = Some code" and "attempts 3 c v s = (Inr (), s1)"
  shows "(c = COMMAND_RESET \<longrightarrow>
            snd (command c v s) = snd (update_vals AUX_VALS s1)
            \<and> tx (device (snd (command c v s)))
                = tx (device s1) @ map (\<lambda>r. frame_of r 0 0) aux_codes)
         \<and> (c \<noteq> COMMAND_RESET \<longrightarrow> command c v s = (Inr PNone, s1))"
proof -
  have "snd (command COMMAND_RESET v s) = snd (update_vals AUX_VALS s1)"
    if "c = COMMAND_RESET"
    using assms that
    by (cases "update_vals AUX_VALS s1")
       (auto simp del: attempts.simps update_vals.simps split: sum.splits)
  moreover have "command c v s = (Inr PNone, s1)" if "c \<noteq> COMMAND_RESET"
    using assms that by (simp del: attempts.simps)
  ultimately show ?thesis using update_vals_AUX_tx [of s1] by auto
qed

theorem command_reset_refreshes_aux_witness:
  "COMMANDS COMMAND_RESET = Some RESETCNT
   \<and> tx (device (snd (command COMMAND_RESET (PInt 1) (init quiet))))
       = tx (device (snd (attempts 3 COMMAND_RESET (PInt 1) (init quiet))))
         @ map (\<lambda>r. frame_of r 0 0) aux_codes"
  using command_reset_refreshes_aux [OF reset_code quiet_reset_attempts] reset_code
  by blast

section \<open>The retry loop of the executor\<close>

text \<open>The frames of a log that carry the command byte \<open>code\<close>: the set commands have the
  codes 1 to 5, the queries the codes 16 to 25, so for the code of a set command these
  are the set commands issued.\<close>

definition set_frames :: "int \<Rightarrow> byte list list \<Rightarrow> byte list list" where
  "set_frames code frames = filter (\<lambda>f. uint (f ! 2) = code) frames"

lemma set_frames_append: "set_frames code (a @ b) = set_frames code a @ set_frames code b"
  by (simp add: set_frames_def)

lemma COMMANDS_range: "COMMANDS c = Some code \<Longrightarrow> 1 \<le> code \<and> code \<le> 5"
  by (auto simp: COMMANDS_def register_defs split: if_splits)

lemma setVal_set_frames:
  "length (set_frames code (tx (snd (setVal code v d))))
     \<le> length (set_frames code (tx d)) + 1"
proof (cases "setVal_payload code v")
  case (Inl e)
  then show ?thesis by simp
next
  case (Inr payload)
  then have eq: "tx (snd (setVal code v d)) = tx (snd (writeFunction code payload d))"
    by (auto simp del: writeFunction.simps split: prod.splits sum.splits)
  define t where "t = tx (snd (writeFunction code payload d))"
  from writeFunction_tx [of code payload d]
  have "t = tx d \<or> (\<exists>frame. t = tx d @ [frame] \<and> uint (frame ! 2) = code)"
    unfolding t_def .
  then have "length (set_frames code t) \<le> length (set_frames code (tx d)) + 1"
    by (auto simp: set_frames_def)
  then show ?thesis unfolding eq t_def .
qed

lemma update_val_set_frames:
  assumes "code < 16"
  shows "set_frames code (tx (device (snd (update_val key s))))
           = set_frames code (tx (device s))"
proof (cases "KEY_CMDS key")
  case None
  then show ?thesis by simp
next
  case (Some reg)
  from KEY_CMDS_range [OF Some] have r: "0 \<le> reg" "reg < 256" "16 \<le> reg" by simp_all
  from frame_of_cmd [OF r(1,2), of 0 0] r(3) assms
  have "uint (frame_of reg 0 0 ! 2) \<noteq> code" by simp
  with update_val_tx [OF Some, of s] show ?thesis
    by (simp add: set_frames_def)
qed

lemma aux_refresh_set_frames:
  assumes "code < 16"
  shows "set_frames code (tx (device (snd (update_vals AUX_VALS s))))
           = set_frames code (tx (device s))"
proof -
  have "set_frames code (map (\<lambda>c. frame_of c 0 0) aux_codes) = []"
    using assms
    by (simp add: set_frames_def aux_codes_eq frame_of_def uint_word_of_int
          take_bit_int_eq_self)
  with update_vals_AUX_tx [of s] show ?thesis by (simp add: set_frames_append)
qed

lemma attempts_set_frames:
  assumes "COMMANDS c = Some code"
  shows "length (set_frames code (tx (device (snd (attempts n c v s)))))
           \<le> length (set_frames code (tx (device s))) + n"
proof (induction n arbitrary: s)
  case 0
  show ?case by simp
next
  case (Suc n)
  from COMMANDS_range [OF assms] have lt: "code < 16" by simp
  show ?case
  proof (cases "VERIFY_CMD c")
    case None
    with assms show ?thesis by simp
  next
    case (Some key)
    obtain r1 d1 where sv: "setVal code v (device s) = (r1, d1)"
      by (cases "setVal code v (device s)")
    from setVal_set_frames [of code v "device s"] sv
    have le1: "length (set_frames code (tx d1)) \<le> length (set_frames code (tx (device s))) + 1"
      by simp
    show ?thesis
    proof (cases r1)
      case (Inl e)
      with assms Some sv le1 show ?thesis
        by (simp del: setVal.simps update_val.simps)
    next
      case (Inr b)
      let ?s1 = "s\<lparr>device := d1\<rparr>"
      obtain r2 s2 where uv: "update_val key ?s1 = (r2, s2)"
        by (cases "update_val key ?s1")
      from update_val_set_frames [OF lt, of key ?s1] uv
      have eq2: "set_frames code (tx (device s2)) = set_frames code (tx d1)" by simp
      show ?thesis
      proof (cases r2)
        case (Inl e)
        with assms Some sv Inr uv eq2 le1 show ?thesis
          by (simp del: setVal.simps update_val.simps)
      next
        case r2: (Inr u)
        show ?thesis
        proof (cases "data s2 key")
          case None
          with assms Some sv Inr uv r2 eq2 le1 show ?thesis
            by (simp del: setVal.simps update_val.simps)
        next
          case cur: (Some cur)
          show ?thesis
          proof (cases "py_eq cur v")
            case True
            with assms Some sv Inr uv r2 cur eq2 le1 show ?thesis
              by (simp del: setVal.simps update_val.simps)
          next
            case False
            with assms Some sv Inr uv r2 cur
            have "attempts (Suc n) c v s = attempts n c v s2"
              by (simp del: setVal.simps update_val.simps)
            with Suc.IH [of s2] eq2 le1 show ?thesis by simp
          qed
        qed
      qed
    qed
  qed
qed

lemma command_set_frames:
  assumes "COMMANDS c = Some code"
  shows "length (set_frames code (tx (device (snd (command c v s)))))
           \<le> length (set_frames code (tx (device s))) + 3"
proof -
  from COMMANDS_range [OF assms] have lt: "code < 16" by simp
  obtain r s1 where at: "attempts 3 c v s = (r, s1)" by (cases "attempts 3 c v s")
  from attempts_set_frames [OF assms, of 3 v s] at
  have le: "length (set_frames code (tx (device s1)))
              \<le> length (set_frames code (tx (device s))) + 3" by simp
  have "snd (command c v s) = s1 \<or> snd (command c v s) = snd (update_vals AUX_VALS s1)"
    using assms at
    by (cases "update_vals AUX_VALS s1")
       (auto simp del: attempts.simps update_vals.simps split: sum.splits)
  with le aux_refresh_set_frames [OF lt, of s1] show ?thesis by auto
qed

text \<open>
  The retry loop as the specification describes it. One attempt issues the set command
  and re-reads the verification register (lines 156-158); \<open>rounds k\<close> is \<open>k\<close> attempts in a
  row, ended by the first that raises; \<open>verified\<close> is the test of line 159,
  \<^verbatim>\<open>self.data[key] == value\<close>, with \<open>None\<close> for a missing key.
\<close>

fun one_round :: "int \<Rightarrow> string \<Rightarrow> pyval \<Rightarrow> dl24m \<Rightarrow> (exn + unit) \<times> dl24m" where
  "one_round code key v s =
     (case setVal code v (device s) of
        (Inl e, d1) \<Rightarrow> (Inl e, s\<lparr>device := d1\<rparr>)
      | (Inr _, d1) \<Rightarrow> update_val key (s\<lparr>device := d1\<rparr>))"

fun rounds :: "nat \<Rightarrow> int \<Rightarrow> string \<Rightarrow> pyval \<Rightarrow> dl24m \<Rightarrow> (exn + unit) \<times> dl24m" where
  "rounds 0 code key v s = (Inr (), s)"
| "rounds (Suc k) code key v s =
     (case one_round code key v s of
        (Inl e, s1) \<Rightarrow> (Inl e, s1)
      | (Inr _, s1) \<Rightarrow> rounds k code key v s1)"

definition verified :: "string \<Rightarrow> pyval \<Rightarrow> dl24m \<Rightarrow> bool option" where
  "verified key v s = map_option (\<lambda>cur. py_eq cur v) (data s key)"

lemma attempts_Suc_round:
  assumes "COMMANDS c = Some code" and "VERIFY_CMD c = Some key"
  shows "attempts (Suc n) c v s =
           (case one_round code key v s of
              (Inl e, s1) \<Rightarrow> (Inl e, s1)
            | (Inr _, s1) \<Rightarrow>
                (case verified key v s1 of
                   None \<Rightarrow> (Inl KeyError, s1)
                 | Some m \<Rightarrow> if m then (Inr (), s1) else attempts n c v s1))"
  using assms
  by (auto simp: verified_def simp del: setVal.simps update_val.simps
           split: prod.splits sum.splits option.splits)

lemma attempts_rounds:
  assumes "COMMANDS c = Some code" and "VERIFY_CMD c = Some key"
  shows "1 \<le> k \<Longrightarrow> k \<le> n \<Longrightarrow> rounds k code key v s = (Inr (), sk) \<Longrightarrow>
         (\<forall>j. 1 \<le> j \<longrightarrow> j < k \<longrightarrow> verified key v (snd (rounds j code key v s)) = Some False) \<Longrightarrow>
         verified key v sk \<noteq> None \<Longrightarrow> (k < n \<longrightarrow> verified key v sk = Some True) \<Longrightarrow>
         attempts n c v s = (Inr (), sk)"
proof (induction k arbitrary: n s)
  case 0
  then show ?case by simp
next
  case (Suc k)
  from Suc.prems(2) obtain m where n: "n = Suc m" and km: "k \<le> m" by (cases n) simp_all
  obtain r1 s1 where o: "one_round code key v s = (r1, s1)"
    by (cases "one_round code key v s")
  from Suc.prems(3) o have r1: "r1 = Inr ()" and rest: "rounds k code key v s1 = (Inr (), sk)"
    by (cases r1; simp del: one_round.simps)+
  have unf: "attempts n c v s =
      (case verified key v s1 of None \<Rightarrow> (Inl KeyError, s1)
       | Some m' \<Rightarrow> if m' then (Inr (), s1) else attempts m c v s1)"
    unfolding n attempts_Suc_round [OF assms] o r1 by simp
  show ?case
  proof (cases k)
    case 0
    with rest have sk: "sk = s1" by simp
    from Suc.prems(5) obtain b where b: "verified key v s1 = Some b" unfolding sk by auto
    show ?thesis
    proof (cases b)
      case True
      with unf b sk show ?thesis by simp
    next
      case False
      with Suc.prems(6) b sk 0 n have "m = 0" by (cases m) simp_all
      with unf b False sk show ?thesis by simp
    qed
  next
    case (Suc k')
    have one: "snd (rounds 1 code key v s) = s1"
      using o r1 by (simp del: one_round.simps)
    from Suc.prems(4) [rule_format, of 1] Suc one
    have f: "verified key v s1 = Some False" by simp
    have later: "\<forall>j. 1 \<le> j \<longrightarrow> j < k \<longrightarrow> verified key v (snd (rounds j code key v s1)) = Some False"
    proof (intro allI impI)
      fix j :: nat
      assume j: "1 \<le> j" "j < k"
      have "snd (rounds (Suc j) code key v s) = snd (rounds j code key v s1)"
        using o r1 by (simp del: one_round.simps)
      with Suc.prems(4) [rule_format, of "Suc j"] j
      show "verified key v (snd (rounds j code key v s1)) = Some False" by simp
    qed
    have "attempts m c v s1 = (Inr (), sk)"
    proof (rule Suc.IH [OF _ km rest later Suc.prems(5)])
      show "1 \<le> k" using Suc by simp
      show "k < m \<longrightarrow> verified key v sk = Some True" using Suc.prems(6) n by simp
    qed
    with unf f show ?thesis by simp
  qed
qed

lemma writeFunction_Inr_tx:
  assumes "writeFunction cmd val d = (Inr r, d')"
  shows "\<exists>frame. tx d' = tx d @ [frame] \<and> uint (frame ! 2) = cmd"
proof (cases "bytearray ([0xB1, 0xB2, cmd] @ val @ [0xB6])")
  case (Inl e)
  with assms show ?thesis by simp
next
  case (Inr frame)
  let ?n = "if 16 \<le> cmd then 8 else (0::nat)"
  have "frame = map word_of_int ([0xB1, 0xB2, cmd] @ val @ [0xB6])" and "0 \<le> cmd" "cmd < 256"
    using Inr by (auto simp: bytearray_def split: if_splits)
  then have c: "uint (frame ! 2) = cmd"
    by (simp add: uint_word_of_int take_bit_int_eq_self)
  obtain r0 d0 where ex: "exchange ?n frame d = (r0, d0)" by (cases "exchange ?n frame d")
  have t: "tx d0 = tx d @ [frame]" using exchange_tx [of ?n frame d] ex by simp
  from assms Inr ex have "d' = d0"
    by (auto simp del: exchange.simps split: sum.splits)
  with t c show ?thesis by blast
qed

lemma setVal_Inr_tx:
  assumes "setVal code v d = (Inr b, d1)"
  shows "\<exists>frame. tx d1 = tx d @ [frame] \<and> uint (frame ! 2) = code"
proof (cases "setVal_payload code v")
  case (Inl e)
  with assms show ?thesis by simp
next
  case (Inr payload)
  obtain r d' where w: "writeFunction code payload d = (r, d')"
    by (cases "writeFunction code payload d")
  from assms Inr w obtain ret where "r = Inr ret" and "d1 = d'"
    by (cases r) (auto simp del: writeFunction.simps)
  with w writeFunction_Inr_tx [of code payload d ret d'] show ?thesis by simp
qed

lemma one_round_set_frames:
  assumes "code < 16" and "one_round code key v s = (Inr (), s1)"
  shows "length (set_frames code (tx (device s1)))
           = length (set_frames code (tx (device s))) + 1"
proof -
  obtain r d1 where sv: "setVal code v (device s) = (r, d1)"
    by (cases "setVal code v (device s)")
  from assms(2) sv obtain b where r: "r = Inr b"
    and uv: "update_val key (s\<lparr>device := d1\<rparr>) = (Inr (), s1)"
    by (cases r) (auto simp del: setVal.simps update_val.simps)
  from setVal_Inr_tx [OF sv [unfolded r]] obtain frame where
    f: "tx d1 = tx (device s) @ [frame]" "uint (frame ! 2) = code" by blast
  from update_val_set_frames [OF assms(1), of key "s\<lparr>device := d1\<rparr>"] uv
  have "set_frames code (tx (device s1)) = set_frames code (tx d1)" by simp
  with f show ?thesis by (simp add: set_frames_def)
qed

lemma rounds_set_frames:
  assumes "code < 16"
  shows "rounds k code key v s = (Inr (), sk) \<Longrightarrow>
         length (set_frames code (tx (device sk)))
           = length (set_frames code (tx (device s))) + k"
proof (induction k arbitrary: s)
  case 0
  then show ?case by simp
next
  case (Suc k)
  obtain r1 s1 where o: "one_round code key v s = (r1, s1)"
    by (cases "one_round code key v s")
  from Suc.prems o have r1: "r1 = Inr ()" and rest: "rounds k code key v s1 = (Inr (), sk)"
    by (cases r1; simp del: one_round.simps)+
  from one_round_set_frames [OF assms o [unfolded r1]] Suc.IH [OF rest]
  show ?case by simp
qed

lemma COMMANDS_verify_key:
  "COMMANDS c = Some code \<Longrightarrow> \<exists>key. VERIFY_CMD c = Some key"
  by (auto simp: COMMANDS_def VERIFY_CMD_def split: if_splits)

text \<open>
  A device that answers the first query of the voltage limit with 0 and the second with
  the raw value 1234, and the requested value, the float \<^verbatim>\<open>12.34\<close>.
\<close>

definition retry_dev :: device where
  "retry_dev = quiet\<lparr>replies :=
     [[], [0xCA, 0xCB, 0x18, 0x00, 0x00, 0x00, 0xCE, 0xCF],
      [], [0xCA, 0xCB, 0x18, 0x00, 0x04, 0xD2, 0xCE, 0xCF]]\<rparr>"

definition volts :: pyval where
  "volts = PFloat (double_of (1234 / 100))"

lemma retry_rounds:
  "rounds 2 SETVCUT ''set_voltage'' volts (init retry_dev)
     = (Inr (), snd (rounds 2 SETVCUT ''set_voltage'' volts (init retry_dev)))"
proof -
  have "fst (rounds 2 SETVCUT ''set_voltage'' volts (init retry_dev)) = Inr ()"
    by code_simp
  then show ?thesis by (simp add: prod_eq_iff)
qed

lemma retry_first:
  "verified ''set_voltage'' volts (snd (rounds 1 SETVCUT ''set_voltage'' volts (init retry_dev)))
     = Some False"
  by code_simp

lemma retry_second:
  "verified ''set_voltage'' volts (snd (rounds 2 SETVCUT ''set_voltage'' volts (init retry_dev)))
     = Some True"
  by code_simp

lemma retry_tx:
  "tx (device (snd (rounds 2 SETVCUT ''set_voltage'' volts (init retry_dev))))
     = [frame_of SETVCUT 12 34, frame_of LIM_VOLT 0 0,
        frame_of SETVCUT 12 34, frame_of LIM_VOLT 0 0]"
  by code_simp

lemma retry_data:
  "data (snd (rounds 2 SETVCUT ''set_voltage'' volts (init retry_dev))) ''set_voltage''
     = Some (PFloat (fdiv 1234 100))"
  by code_simp

text \<open>
  C4. For every recognised command and every value, \<^verbatim>\<open>command\<close> writes at most three
  frames carrying the command's set code. Moreover the command has a verification key
  such that, whenever the first \<open>k\<close> attempts (\<open>k\<close> from 1 to 3) return, none of the
  attempts before the \<open>k\<close>-th leaves a reading equal to the requested value and the
  \<open>k\<close>-th does (or \<open>k\<close> is 3), \<^verbatim>\<open>command\<close> writes exactly \<open>k\<close> set frames and ends in the
  state reached by the \<open>k\<close>-th attempt, followed for the reset command by the refresh of
  the auxiliary registers: it stops at the first match. The equality is Python's \<^verbatim>\<open>==\<close>,
  exact on the float that the division of the decode produced. In the witness the first
  attempt reads 0.0, the second reads \<^verbatim>\<open>1234 / 100.\<close>, which is the float \<^verbatim>\<open>12.34\<close>, and
  there is no third.
\<close>

theorem command_stops_at_first_match:
  assumes "COMMANDS c = Some code"
  shows "length (set_frames code (tx (device (snd (command c v s)))))
           \<le> length (set_frames code (tx (device s))) + 3
         \<and> (\<exists>key. VERIFY_CMD c = Some key
              \<and> (\<forall>k sk. 1 \<le> k \<longrightarrow> k \<le> 3 \<longrightarrow>
                    rounds k code key v s = (Inr (), sk) \<longrightarrow>
                    (\<forall>j. 1 \<le> j \<longrightarrow> j < k \<longrightarrow>
                         verified key v (snd (rounds j code key v s)) = Some False) \<longrightarrow>
                    verified key v sk \<noteq> None \<longrightarrow>
                    (k < 3 \<longrightarrow> verified key v sk = Some True) \<longrightarrow>
                      length (set_frames code (tx (device (snd (command c v s)))))
                        = length (set_frames code (tx (device s))) + k
                      \<and> snd (command c v s)
                          = (if c = COMMAND_RESET then snd (update_vals AUX_VALS sk) else sk)
                      \<and> (c \<noteq> COMMAND_RESET \<longrightarrow> fst (command c v s) = Inr PNone)))"
proof -
  from COMMANDS_range [OF assms] have lt: "code < 16" by simp
  from COMMANDS_verify_key [OF assms] obtain key where key: "VERIFY_CMD c = Some key" ..
  have stop: "length (set_frames code (tx (device (snd (command c v s)))))
                = length (set_frames code (tx (device s))) + k
              \<and> snd (command c v s)
                  = (if c = COMMAND_RESET then snd (update_vals AUX_VALS sk) else sk)
              \<and> (c \<noteq> COMMAND_RESET \<longrightarrow> fst (command c v s) = Inr PNone)"
    if k: "1 \<le> k" "k \<le> 3" and r: "rounds k code key v s = (Inr (), sk)"
      and nv: "\<forall>j. 1 \<le> j \<longrightarrow> j < k \<longrightarrow> verified key v (snd (rounds j code key v s)) = Some False"
      and vk: "verified key v sk \<noteq> None" "k < 3 \<longrightarrow> verified key v sk = Some True"
    for k sk
  proof -
    have at: "attempts 3 c v s = (Inr (), sk)"
      by (rule attempts_rounds [OF assms key k r nv vk])
    have n: "length (set_frames code (tx (device sk)))
               = length (set_frames code (tx (device s))) + k"
      by (rule rounds_set_frames [OF lt r])
    have st: "snd (command c v s)
                = (if c = COMMAND_RESET then snd (update_vals AUX_VALS sk) else sk)"
      using assms at
      by (cases "update_vals AUX_VALS sk")
         (auto simp del: attempts.simps update_vals.simps split: sum.splits)
    have res: "c \<noteq> COMMAND_RESET \<longrightarrow> fst (command c v s) = Inr PNone"
      using assms at by (simp del: attempts.simps)
    from st n aux_refresh_set_frames [OF lt, of sk] res show ?thesis by simp
  qed
  from key stop command_set_frames [OF assms, of v s] show ?thesis by blast
qed

theorem command_stops_at_first_match_witness:
  "COMMANDS COMMAND_SET_VOLTAGE = Some SETVCUT
   \<and> VERIFY_CMD COMMAND_SET_VOLTAGE = Some ''set_voltage''
   \<and> fst (command COMMAND_SET_VOLTAGE volts (init retry_dev)) = Inr PNone
   \<and> tx (device (snd (command COMMAND_SET_VOLTAGE volts (init retry_dev))))
       = [frame_of SETVCUT 12 34, frame_of LIM_VOLT 0 0,
          frame_of SETVCUT 12 34, frame_of LIM_VOLT 0 0]
   \<and> length (set_frames SETVCUT
        (tx (device (snd (command COMMAND_SET_VOLTAGE volts (init retry_dev)))))) = 2
   \<and> data (snd (command COMMAND_SET_VOLTAGE volts (init retry_dev))) ''set_voltage''
       = Some (PFloat (fdiv 1234 100))
   \<and> py_eq (PFloat (fdiv 1234 100)) volts"
proof -
  have c: "COMMANDS COMMAND_SET_VOLTAGE = Some SETVCUT" by (simp add: COMMANDS_def)
  have vc: "VERIFY_CMD COMMAND_SET_VOLTAGE = Some ''set_voltage''" by (simp add: VERIFY_CMD_def)
  have z: "set_frames SETVCUT (tx (device (init retry_dev))) = []"
    by (simp add: init_def retry_dev_def quiet_def set_frames_def)
  have e: "py_eq (PFloat (fdiv 1234 100)) volts"
    by (simp add: py_eq_def volts_def fdiv_def)
  let ?sk = "snd (rounds 2 SETVCUT ''set_voltage'' volts (init retry_dev))"
  have first: "\<forall>j. 1 \<le> j \<longrightarrow> j < 2 \<longrightarrow>
      verified ''set_voltage'' volts
        (snd (rounds j SETVCUT ''set_voltage'' volts (init retry_dev))) = Some False"
  proof (intro allI impI)
    fix j :: nat
    assume "1 \<le> j" "j < 2"
    then have "j = 1" by simp
    then show "verified ''set_voltage'' volts
        (snd (rounds j SETVCUT ''set_voltage'' volts (init retry_dev))) = Some False"
      using retry_first by (simp only:)
  qed
  from command_stops_at_first_match [OF c, of volts "init retry_dev"] vc
  have "\<forall>k sk. 1 \<le> k \<longrightarrow> k \<le> 3 \<longrightarrow>
          rounds k SETVCUT ''set_voltage'' volts (init retry_dev) = (Inr (), sk) \<longrightarrow>
          (\<forall>j. 1 \<le> j \<longrightarrow> j < k \<longrightarrow>
             verified ''set_voltage'' volts
               (snd (rounds j SETVCUT ''set_voltage'' volts (init retry_dev))) = Some False) \<longrightarrow>
          verified ''set_voltage'' volts sk \<noteq> None \<longrightarrow>
          (k < 3 \<longrightarrow> verified ''set_voltage'' volts sk = Some True) \<longrightarrow>
            length (set_frames SETVCUT
              (tx (device (snd (command COMMAND_SET_VOLTAGE volts (init retry_dev))))))
              = length (set_frames SETVCUT (tx (device (init retry_dev)))) + k
            \<and> snd (command COMMAND_SET_VOLTAGE volts (init retry_dev))
                = (if COMMAND_SET_VOLTAGE = COMMAND_RESET
                   then snd (update_vals AUX_VALS sk) else sk)
            \<and> (COMMAND_SET_VOLTAGE \<noteq> COMMAND_RESET \<longrightarrow>
                 fst (command COMMAND_SET_VOLTAGE volts (init retry_dev)) = Inr PNone)"
    by (auto simp del: command.simps rounds.simps)
  then have all: "\<forall>k sk. 1 \<le> k \<longrightarrow> k \<le> 3 \<longrightarrow>
          rounds k SETVCUT ''set_voltage'' volts (init retry_dev) = (Inr (), sk) \<longrightarrow>
          (\<forall>j. 1 \<le> j \<longrightarrow> j < k \<longrightarrow>
             verified ''set_voltage'' volts
               (snd (rounds j SETVCUT ''set_voltage'' volts (init retry_dev))) = Some False) \<longrightarrow>
          verified ''set_voltage'' volts sk \<noteq> None \<longrightarrow>
          (k < 3 \<longrightarrow> verified ''set_voltage'' volts sk = Some True) \<longrightarrow>
            length (set_frames SETVCUT
              (tx (device (snd (command COMMAND_SET_VOLTAGE volts (init retry_dev))))))
              = length (set_frames SETVCUT (tx (device (init retry_dev)))) + k
            \<and> snd (command COMMAND_SET_VOLTAGE volts (init retry_dev))
                = (if COMMAND_SET_VOLTAGE = COMMAND_RESET
                   then snd (update_vals AUX_VALS sk) else sk)
            \<and> (COMMAND_SET_VOLTAGE \<noteq> COMMAND_RESET \<longrightarrow>
                 fst (command COMMAND_SET_VOLTAGE volts (init retry_dev)) = Inr PNone)" .
  have k: "(1::nat) \<le> 2" "(2::nat) \<le> 3" by simp_all
  have v2: "verified ''set_voltage'' volts ?sk \<noteq> None" using retry_second by simp
  have v3: "(2::nat) < 3 \<Longrightarrow> verified ''set_voltage'' volts ?sk = Some True"
    using retry_second by simp
  note inst = all [rule_format, of 2 ?sk, OF k retry_rounds first [rule_format] v2 v3]
  have n: "length (set_frames SETVCUT
              (tx (device (snd (command COMMAND_SET_VOLTAGE volts (init retry_dev))))))
            = length (set_frames SETVCUT (tx (device (init retry_dev)))) + 2"
    by (rule inst [THEN conjunct1])
  have st: "snd (command COMMAND_SET_VOLTAGE volts (init retry_dev)) = ?sk"
    using inst [THEN conjunct2, THEN conjunct1] by simp
  have r: "fst (command COMMAND_SET_VOLTAGE volts (init retry_dev)) = Inr PNone"
    using inst [THEN conjunct2, THEN conjunct2] by simp
  from n z have n2: "length (set_frames SETVCUT
       (tx (device (snd (command COMMAND_SET_VOLTAGE volts (init retry_dev)))))) = 2"
    by (simp del: command.simps)
  show ?thesis
    using c vc r n2 e retry_tx retry_data
    unfolding st by (simp del: command.simps rounds.simps)
qed

end
